theory Spec2Isabelle
  imports Complex_Main "HOL-Library.Word"
begin

unbundle bit_operations_syntax

text \<open>
  The RANLUX engines of \<^verbatim>\<open>ranlux.h\<close>: the draw and word-export members of the scalar and
  the two vector classes, as they are written in the header; the subtract-with-borrow
  recurrence, the congruential generator modulo \<open>2^576 - 2^240 + 1\<close> and the conversions
  between their states, as the specification describes them; and the properties that the
  specification states of them.
\<close>

section \<open>The subtract-with-borrow engines of ranlux.h\<close>

subsection \<open>Conversion of a 32-bit integer to a single-precision float\<close>

text \<open>
  The draw operators return \<^verbatim>\<open>((int32_t*)_x)[_pos++]*(1.0f/0x1p24f)\<close>. The factor is
  exactly \<open>2^-24\<close>, and scaling a float by a power of two is exact in this range, so the
  only rounding is the one of the conversion of the \<^verbatim>\<open>int32_t\<close> to \<^verbatim>\<open>float\<close>: to the
  nearest value with a significand of 24 bits, ties to the even significand. The value of the
  float is kept as a real number.
\<close>

fun ulp24 :: "nat \<Rightarrow> nat \<Rightarrow> nat" where
  "ulp24 0 a = 1"
| "ulp24 (Suc k) a = (if a < 2 ^ 24 then 1 else 2 * ulp24 k (a div 2))"

definition int32_to_float :: "int \<Rightarrow> int" where
  "int32_to_float i =
     (let a = nat \<bar>i\<bar>; u = ulp24 8 a; q = a div u; r = a mod u;
          q' = (if 2 * r < u \<or> (2 * r = u \<and> even q) then q else q + 1)
      in sgn i * int (q' * u))"

definition tofloat24 :: "32 word \<Rightarrow> real" where
  "tofloat24 v = real_of_int (int32_to_float (sint v)) / 2 ^ 24"

subsection \<open>ranluxI_scalar\<close>

text \<open>
  The members \<^verbatim>\<open>_x[24]\<close>, \<^verbatim>\<open>_c\<close>, \<^verbatim>\<open>_p\<close> and \<^verbatim>\<open>_pos\<close> of the class are the fields
  \<open>sx\<close>, \<open>sc\<close>, \<open>sp\<close> and \<open>spos\<close>: the state words and the carry are \<^verbatim>\<open>uint32_t\<close>, the
  number of states to skip and the cursor are \<^verbatim>\<open>int\<close>.
\<close>

record ranluxI_scalar =
  sx :: "32 word list"
  sc :: "32 word"
  sp :: int
  spos :: int

text \<open>
  \<^verbatim>\<open>nextstate\<close> is declared in the class and defined in a file that is not part of the
  sources at hand; the inline members below call it, so they take it as the parameter \<open>ns\<close>.
\<close>

type_synonym scalar_nextstate = "int \<Rightarrow> ranluxI_scalar \<Rightarrow> ranluxI_scalar"

text \<open>
  \<^verbatim>\<open>operator()\<close>: refill when the cursor has reached 24, then deliver the word under the
  cursor. A cursor outside \<open>0..23\<close> after the refill test reads outside \<^verbatim>\<open>_x\<close>: \<open>None\<close>.
\<close>

definition scalar_call :: "scalar_nextstate \<Rightarrow> ranluxI_scalar \<Rightarrow> (real \<times> ranluxI_scalar) option" where
  "scalar_call ns s =
     (let s1 = (if spos s \<ge> 24 then ns (sp s) (s\<lparr>spos := 0\<rparr>) else s)
      in if 0 \<le> spos s1 \<and> spos s1 < 24
         then Some (tofloat24 (sx s1 ! nat (spos s1)), s1\<lparr>spos := spos s1 + 1\<rparr>)
         else None)"

definition scalar_getstate :: "ranluxI_scalar \<Rightarrow> 32 word list \<times> 32 word" where
  "scalar_getstate s = (map (\<lambda>i. sx s ! i) [0..<24], sc s)"

text \<open>
  The body of the export loop: four values \<^verbatim>\<open>y[j..j+3]\<close> give three output words. The
  right shift is the one of the element type: logical for \<^verbatim>\<open>uint32_t\<close>
  (\<^const>\<open>drop_bit\<close>), arithmetic for \<^verbatim>\<open>int32_t\<close> (\<^const>\<open>signed_drop_bit\<close>). Left
  shifts drop the bits that leave the 32-bit word.
\<close>

definition pack3 :: "(nat \<Rightarrow> 32 word \<Rightarrow> 32 word) \<Rightarrow> 32 word list \<Rightarrow> nat \<Rightarrow> 32 word list" where
  "pack3 shr y j =
     [push_bit 8 (y ! j) OR shr 16 (y ! (j + 1)),
      push_bit 16 (y ! (j + 1)) OR shr 8 (y ! (j + 2)),
      push_bit 24 (y ! (j + 2)) OR (y ! (j + 3))]"

text \<open>
  The loop \<^verbatim>\<open>for(i=0;i<n;i+=3){...; j+=4;}\<close>; the words are written to \<^verbatim>\<open>x[i], x[i+1],
  x[i+2]\<close> with \<open>i\<close> running through \<open>0, 3, 6, ...\<close>, so the result lists \<^verbatim>\<open>x[0..]\<close> in
  order.
\<close>

function pack_loop :: "(nat \<Rightarrow> 32 word \<Rightarrow> 32 word) \<Rightarrow> nat \<Rightarrow> nat \<Rightarrow> nat \<Rightarrow> 32 word list \<Rightarrow> 32 word list" where
  "pack_loop shr n i j y = (if i < n then pack3 shr y j @ pack_loop shr n (i + 3) (j + 4) y else [])"
  by pat_completeness auto
termination
  by (relation "measure (\<lambda>(shr, n, i, j, y). n - i)") auto

definition scalar_get_uint32_vector :: "32 word list \<Rightarrow> 32 word list" where
  "scalar_get_uint32_vector xs = pack_loop drop_bit 18 0 0 xs"

definition scalar_nextstate_and_get_uint32_vector ::
    "scalar_nextstate \<Rightarrow> ranluxI_scalar \<Rightarrow> 32 word list \<times> ranluxI_scalar" where
  "scalar_nextstate_and_get_uint32_vector ns s =
     (let s1 = ns (sp s) s in (scalar_get_uint32_vector (sx s1), s1))"

subsection \<open>ranluxI_SSE and ranluxI_AVX\<close>

text \<open>
  The two vector classes differ in the vector type (\<^verbatim>\<open>__m128i\<close>: 4 lanes of 32 bits,
  \<^verbatim>\<open>__m256i\<close>: 8 lanes) and in the constants \<open>4\<close> and \<open>8\<close> of their inline members, so one
  record and one set of definitions with the width \<open>w\<close> as a parameter covers both.
  The members \<^verbatim>\<open>_x[24]\<close>, \<^verbatim>\<open>_c\<close>, \<^verbatim>\<open>_p\<close> and \<^verbatim>\<open>_pos\<close> are the fields \<open>vx\<close>, \<open>vc\<close>,
  \<open>vp\<close> and \<open>vpos\<close>; \<open>vx s ! k ! l\<close> is lane \<open>l\<close> of the vector \<^verbatim>\<open>_x[k]\<close>. The members read the array through
  \<^verbatim>\<open>(int32_t*)_x\<close>, where lane \<open>l\<close> of \<^verbatim>\<open>_x[k]\<close> is element \<open>w*k + l\<close>.
\<close>

record ranluxI_SIMD =
  vx :: "32 word list list"
  vc :: "32 word list"
  vp :: int
  vpos :: int

type_synonym simd_nextstate = "int \<Rightarrow> ranluxI_SIMD \<Rightarrow> ranluxI_SIMD"

definition flat :: "ranluxI_SIMD \<Rightarrow> 32 word list" where
  "flat s = concat (vx s)"

definition simd_call :: "nat \<Rightarrow> simd_nextstate \<Rightarrow> ranluxI_SIMD \<Rightarrow> (real \<times> ranluxI_SIMD) option" where
  "simd_call w ns s =
     (let s1 = (if vpos s \<ge> int w * 24 then ns (vp s) (s\<lparr>vpos := 0\<rparr>) else s)
      in if 0 \<le> vpos s1 \<and> vpos s1 < int w * 24
         then Some (tofloat24 (flat s1 ! nat (vpos s1)), s1\<lparr>vpos := vpos s1 + 1\<rparr>)
         else None)"

definition simd_get_uint32_vector :: "nat \<Rightarrow> 32 word list \<Rightarrow> 32 word list" where
  "simd_get_uint32_vector w y = pack_loop signed_drop_bit (w * 18) 0 0 y"

definition simd_nextstate_and_get_uint32_vector ::
    "nat \<Rightarrow> simd_nextstate \<Rightarrow> ranluxI_SIMD \<Rightarrow> 32 word list \<times> ranluxI_SIMD" where
  "simd_nextstate_and_get_uint32_vector w ns s =
     (let s1 = ns (vp s) s in (simd_get_uint32_vector w (flat s1), s1))"

abbreviation "SSE_call \<equiv> simd_call 4"
abbreviation "AVX_call \<equiv> simd_call 8"
abbreviation "SSE_nextstate_and_get_uint32_vector \<equiv> simd_nextstate_and_get_uint32_vector 4"
abbreviation "AVX_nextstate_and_get_uint32_vector \<equiv> simd_nextstate_and_get_uint32_vector 8"

text \<open>
  Repeated draws, as in the loops \<^verbatim>\<open>for(int i=0;i<N;i++) sum += g1();\<close> of the test
  programs: the values in the order they are delivered, and the state left behind.
\<close>

fun simd_draws :: "nat \<Rightarrow> simd_nextstate \<Rightarrow> nat \<Rightarrow> ranluxI_SIMD \<Rightarrow> (real list \<times> ranluxI_SIMD) option" where
  "simd_draws w ns 0 s = Some ([], s)"
| "simd_draws w ns (Suc k) s =
     (case simd_call w ns s of
        None \<Rightarrow> None
      | Some (f, s1) \<Rightarrow>
          (case simd_draws w ns k s1 of None \<Rightarrow> None | Some (fs, s2) \<Rightarrow> Some (f # fs, s2)))"

text \<open>The shape of a state of a vector engine of width \<open>w\<close>: 24 vectors of \<open>w\<close> lanes.\<close>

definition simd_shape :: "nat \<Rightarrow> ranluxI_SIMD \<Rightarrow> bool" where
  "simd_shape w s \<longleftrightarrow> length (vx s) = 24 \<and> (\<forall>v\<in>set (vx s). length v = w) \<and> length (vc s) = w"

text \<open>The 24 words of one lane of a vector engine.\<close>

definition lane_words :: "ranluxI_SIMD \<Rightarrow> nat \<Rightarrow> 32 word list" where
  "lane_words s l = map (\<lambda>v. v ! l) (vx s)"

section \<open>The recurrence, the congruential generator and the conversions\<close>

text \<open>
  The bodies of \<^verbatim>\<open>ranluxI_scalar::nextstate\<close>, \<^verbatim>\<open>ranluxI_SSE::nextstate\<close> and
  \<^verbatim>\<open>ranluxI_AVX::nextstate\<close>, the class \<^verbatim>\<open>ranluxpp\<close> and the conversions
  \<^verbatim>\<open>getlcgstate\<close> and \<^verbatim>\<open>getranluxseq\<close> are in files that are not part of the sources at
  hand: \<^verbatim>\<open>ranlux.h\<close> declares the first three and the test programs call the others. The
  definitions of this section follow the specification's description of them.
\<close>

text \<open>
  Modelled from the spec: the UnpackedState that the missing \<^verbatim>\<open>nextstate\<close> and conversions
  work on, 24 lanes of 24 bits and a borrow bit. The lanes are kept in the order of their
  generation, oldest first, so that lane 0 is \<open>x[i-24]\<close> and lane 14 is \<open>x[i-10]\<close> when
  \<open>x[i]\<close> is generated.
\<close>

record UnpackedState =
  lanes :: "nat list"
  borrow :: nat

text \<open>
  Modelled from the spec: the invariant of an UnpackedState (the missing code keeps it),
  every lane in \<open>[0, 2^24)\<close> and the borrow a bit.
\<close>

definition valid_state :: "UnpackedState \<Rightarrow> bool" where
  "valid_state s \<longleftrightarrow> length (lanes s) = 24 \<and> (\<forall>x\<in>set (lanes s). x < 2 ^ 24) \<and> borrow s \<le> 1"

text \<open>
  Modelled from the spec: the difference that one sub-step of the missing \<^verbatim>\<open>nextstate\<close>
  forms, on the lags 24 and 10 and ``consuming the borrow bit''. The specification fixes
  the modulus \<open>m = 2^576 - 2^240 + 1\<close> and the multiplier \<open>a = m - (m-1)/2^24\<close> of the
  congruential generator that describes the same sequence. The recurrence on the lags 24 and
  10 for which that holds is \<open>x[i] = x[i-10] - x[i-24] - borrow\<close>, and this is the operand
  order taken here; the specification's text names the two operands in the other order.
\<close>

definition swb_new :: "UnpackedState \<Rightarrow> int" where
  "swb_new s = int (lanes s ! 14) - int (lanes s ! 0) - int (borrow s)"

text \<open>
  Modelled from the spec: one sub-step of the missing \<^verbatim>\<open>nextstate\<close>. The new lane is the
  difference modulo \<open>2^24\<close>, the new borrow is 1 when the difference is negative, and the
  oldest lane leaves the window.
\<close>

definition swb_substep :: "UnpackedState \<Rightarrow> UnpackedState" where
  "swb_substep s =
     (let d = swb_new s
      in \<lparr>lanes = tl (lanes s) @ [nat (d mod 2 ^ 24)], borrow = (if d < 0 then 1 else 0)\<rparr>)"

text \<open>
  Modelled from the spec: the modulus of the missing class \<^verbatim>\<open>ranluxpp\<close>,
  \<open>m = 2^576 - 2^240 + 1\<close>. A PackedBigInt is kept as the integer that its nine 64-bit words
  represent.
\<close>

definition modulus_m :: nat where
  "modulus_m = 2 ^ 576 - 2 ^ 240 + 1"

text \<open>Modelled from the spec: the multiplier of one sub-step, \<open>a = m - (m-1)/2^24\<close>.\<close>

definition mult_a :: nat where
  "mult_a = modulus_m - (modulus_m - 1) div 2 ^ 24"

text \<open>
  Modelled from the spec: the multiplier \<open>A = a^p mod m\<close> that the missing constructor of
  \<^verbatim>\<open>ranluxpp\<close> computes for the skip distance \<open>p\<close> (\<^verbatim>\<open>getmultiplier\<close>).
\<close>

definition multiplier_A :: "nat \<Rightarrow> nat" where
  "multiplier_A p = mult_a ^ p mod modulus_m"

text \<open>
  Modelled from the spec: the missing \<^verbatim>\<open>ranluxpp::nextstate\<close>,
  \<open>state \<leftarrow> state \<times> A mod m\<close>.
\<close>

definition lcg_nextstate :: "nat \<Rightarrow> nat \<Rightarrow> nat" where
  "lcg_nextstate p x = (x * multiplier_A p) mod modulus_m"

text \<open>
  Modelled from the spec: the 576-bit number whose base-\<open>2^24\<close> digits are the 24 lanes
  (``24 24-bit lanes \<open>\<rightarrow>\<close> 576 bits''), oldest lane least significant, for the missing
  conversions.
\<close>

fun pack_lanes :: "nat list \<Rightarrow> nat" where
  "pack_lanes [] = 0"
| "pack_lanes (x # xs) = x + 2 ^ 24 * pack_lanes xs"

text \<open>Modelled from the spec: the 24 base-\<open>2^24\<close> digits of a 576-bit number, for the missing conversions.\<close>

definition unpack_lanes :: "nat \<Rightarrow> nat list" where
  "unpack_lanes y = map (\<lambda>k. (y div 2 ^ (24 * k)) mod 2 ^ 24) [0..<24]"

text \<open>
  Modelled from the spec: the value that the missing \<^verbatim>\<open>getlcgstate\<close> packs. The
  specification names the conversion as the fixed linear map between the lanes with the
  borrow bit and the 576-bit integer under which the recurrence and the congruential
  generator with multiplier \<open>a\<close> describe the same sequence, and does not spell the map out.
  With \<open>y\<close> the packed lanes, the map with that property is \<open>y - \<lfloor>y / 2^336\<rfloor> + borrow\<close>.
\<close>

definition lcg_raw :: "UnpackedState \<Rightarrow> nat" where
  "lcg_raw s = (let y = pack_lanes (lanes s) in y - y div 2 ^ 336 + borrow s)"

text \<open>
  Modelled from the spec: the missing \<^verbatim>\<open>getlcgstate\<close> (toLCGState), with the value reduced
  to the range below \<open>m\<close> that the specification requires of a PackedBigInt.
\<close>

definition toLCGState :: "UnpackedState \<Rightarrow> nat" where
  "toLCGState s = lcg_raw s mod modulus_m"

text \<open>
  Modelled from the spec: the missing \<^verbatim>\<open>getranluxseq\<close> (toSWBState), the conversion in the
  other direction. The lanes are the first 24 base-\<open>2^24\<close> digits of \<open>x / m\<close>, and the borrow
  is what the packing of these lanes leaves of \<open>x\<close>.
\<close>

definition toSWBState :: "nat \<Rightarrow> UnpackedState" where
  "toSWBState x =
     (let y = (x * 2 ^ 576) div modulus_m
      in \<lparr>lanes = unpack_lanes y, borrow = x + y div 2 ^ 336 - y\<rparr>)"

text \<open>
  The state with every lane \<open>2^24 - 1\<close> and the borrow set is a fixed point of the
  recurrence; its packed value is \<open>m\<close> itself.
\<close>

definition degenerate_state :: UnpackedState where
  "degenerate_state = \<lparr>lanes = replicate 24 (2 ^ 24 - 1), borrow = 1\<rparr>"

text \<open>
  Modelled from the spec: the UnpackedState in the members \<^verbatim>\<open>_x\<close> and \<^verbatim>\<open>_c\<close> of a scalar
  engine, on which the missing \<^verbatim>\<open>ranluxI_scalar::nextstate\<close> works.
\<close>

definition scalar_unpacked :: "ranluxI_scalar \<Rightarrow> UnpackedState" where
  "scalar_unpacked s = \<lparr>lanes = map unat (sx s), borrow = unat (sc s)\<rparr>"

text \<open>
  The arguments that the test programs hand to \<^verbatim>\<open>getlcgstate\<close>: the output of
  \<^verbatim>\<open>getstate\<close>, read as an UnpackedState.
\<close>

definition getstate_unpacked :: "ranluxI_scalar \<Rightarrow> UnpackedState" where
  "getstate_unpacked s = (case scalar_getstate s of (y, k) \<Rightarrow> \<lparr>lanes = map unat y, borrow = unat k\<rparr>)"

text \<open>
  Modelled from the spec: the missing \<^verbatim>\<open>ranluxI_scalar::nextstate(nstates)\<close>, on the members
  \<^verbatim>\<open>_x\<close> and \<^verbatim>\<open>_c\<close>. One state is 24 numbers (the test programs: ``skip 10^9 states or
  1*24*10^9 numbers'', and \<^verbatim>\<open>p = 24*stride\<close> against \<^verbatim>\<open>g0.nextstate(stride)\<close>), so
  \<open>nstates\<close> states are \<open>24 * nstates\<close> sub-steps; a count that is not positive leaves
  the state as it is.
\<close>

definition scalar_nextstate_spec :: scalar_nextstate where
  "scalar_nextstate_spec n s =
     (let u = (swb_substep ^^ (24 * nat n)) (scalar_unpacked s)
      in s\<lparr>sx := map word_of_nat (lanes u), sc := word_of_nat (borrow u)\<rparr>)"

text \<open>
  Modelled from the spec: the UnpackedState of lane \<open>l\<close> of a vector engine, on which the
  missing \<^verbatim>\<open>ranluxI_SSE::nextstate\<close> and \<^verbatim>\<open>ranluxI_AVX::nextstate\<close> work.
\<close>

definition simd_unpacked :: "ranluxI_SIMD \<Rightarrow> nat \<Rightarrow> UnpackedState" where
  "simd_unpacked s l = \<lparr>lanes = map unat (lane_words s l), borrow = unat (vc s ! l)\<rparr>"

text \<open>
  Modelled from the spec: the missing \<^verbatim>\<open>ranluxI_SSE::nextstate\<close> and
  \<^verbatim>\<open>ranluxI_AVX::nextstate\<close>, ``the same recurrence simultaneously'' in each of the \<open>w\<close>
  lanes.
\<close>

definition simd_nextstate_spec :: "nat \<Rightarrow> simd_nextstate" where
  "simd_nextstate_spec w n s =
     (let us = map (\<lambda>l. (swb_substep ^^ (24 * nat n)) (simd_unpacked s l)) [0..<w]
      in s\<lparr>vx := map (\<lambda>k. map (\<lambda>l. word_of_nat (lanes (us ! l) ! k)) [0..<w]) [0..<24],
           vc := map (\<lambda>l. word_of_nat (borrow (us ! l))) [0..<w]\<rparr>)"

section \<open>Invariants\<close>

text \<open>All 24 words of a scalar state are 24-bit values.\<close>

definition lanes24 :: "32 word list \<Rightarrow> bool" where
  "lanes24 xs \<longleftrightarrow> length xs = 24 \<and> (\<forall>x\<in>set xs. x < 2 ^ 24)"

text \<open>The invariant of an engine: 24-bit lanes and a cursor that is not negative.\<close>

definition scalar_inv :: "ranluxI_scalar \<Rightarrow> bool" where
  "scalar_inv s \<longleftrightarrow> lanes24 (sx s) \<and> 0 \<le> spos s"

definition simd_inv :: "nat \<Rightarrow> ranluxI_SIMD \<Rightarrow> bool" where
  "simd_inv w s \<longleftrightarrow> simd_shape w s \<and> (\<forall>v\<in>set (vx s). \<forall>x\<in>set v. x < 2 ^ 24) \<and> 0 \<le> vpos s"

section \<open>Example states\<close>

definition scalar_example :: ranluxI_scalar where
  "scalar_example = \<lparr>sx = [1, 2, 3, 4, 5, 6, 7, 8, 9, 10, 11, 12, 13, 14, 15, 16, 17, 18, 19, 20, 21, 22, 23, 24],
     sc = 0, sp = 17, spos = 5\<rparr>"

definition unpacked_example :: UnpackedState where
  "unpacked_example = \<lparr>lanes = [1, 2, 3, 4, 5, 6, 7, 8, 9, 10, 11, 12, 13, 14, 15, 16, 17, 18, 19, 20, 21, 22, 23, 24],
     borrow = 0\<rparr>"

definition collide_a :: UnpackedState where
  "collide_a = \<lparr>lanes = [0, 0, 0, 0, 0, 0, 0, 0, 0, 0, 0, 0, 0, 0, 0, 0, 0, 0, 0, 0, 0, 0, 0, 1], borrow = 0\<rparr>"

definition collide_b :: UnpackedState where
  "collide_b = \<lparr>lanes = [16777215, 16777215, 16777215, 16777215, 16777215, 16777215, 16777215, 16777215,
      16777215, 16777215, 16777215, 16777215, 16777215, 16777215, 16777215, 16777215,
      16777215, 16777215, 16777215, 16777215, 16777215, 16777215, 16777215, 0], borrow = 0\<rparr>"

definition sse_example :: ranluxI_SIMD where
  "sse_example = \<lparr>vx = [1, 0x10000, 0, 0] # replicate 23 [0, 0, 0, 0], vc = [0, 0, 0, 0], vp = 17, vpos = 0\<rparr>"

definition lanes_zero :: "32 word list" where
  "lanes_zero = replicate 24 0"

definition lanes_low_bit :: "32 word list" where
  "lanes_low_bit = (replicate 24 0)[2 := 1]"

section \<open>The export loop\<close>

lemma pack_loop_closed:
  "pack_loop shr (i + 3 * k) i j y = concat (map (\<lambda>g. pack3 shr y (j + 4 * g)) [0..<k])"
proof (induction k arbitrary: i j)
  case 0
  then show ?case by simp
next
  case (Suc k)
  have "pack_loop shr (i + 3 * Suc k) i j y = pack3 shr y j @ pack_loop shr ((i + 3) + 3 * k) (i + 3) (j + 4) y"
    by (subst pack_loop.simps) (simp add: algebra_simps)
  also have "\<dots> = pack3 shr y j @ concat (map (\<lambda>g. pack3 shr y (j + 4 + 4 * g)) [0..<k])"
    by (simp only: Suc.IH)
  also have "\<dots> = concat (map (\<lambda>g. pack3 shr y (j + 4 * g)) [0..<Suc k])"
    by (simp add: upt_conv_Cons map_Suc_upt [symmetric] add.assoc comp_def del: upt_Suc) 
  finally show ?case .
qed

lemma int_or_split:
  fixes A B :: int
  assumes "0 \<le> B" "B < 2 ^ n"
  shows "push_bit n A OR B = A * 2 ^ n + B"
proof -
  have "B = take_bit n B" using assms by (simp add: take_bit_int_eq_self)
  then have "push_bit n A OR B = take_bit n B OR push_bit n A" by (simp add: or.commute)
  also have "\<dots> = take_bit n B + push_bit n A"
    by (simp flip: concat_bit_def add: concat_bit_eq)
  finally show ?thesis using \<open>B = take_bit n B\<close> by (simp add: push_bit_eq_mult)
qed

lemma uint_shl_or:
  fixes a b :: "32 word"
  assumes "n \<le> 32" "uint b < 2 ^ n"
  shows "uint (push_bit n a OR b) = (uint a mod 2 ^ (32 - n)) * 2 ^ n + uint b"
proof -
  have "uint (push_bit n a) = take_bit 32 (push_bit n (uint a))"
    by (subst unsigned_push_bit_eq) simp
  also have "\<dots> = push_bit n (take_bit (32 - n) (uint a))"
    by (simp add: take_bit_push_bit)
  finally have "uint (push_bit n a OR b) = push_bit n (take_bit (32 - n) (uint a)) OR uint b"
    by (simp add: uint_or)
  also have "\<dots> = take_bit (32 - n) (uint a) * 2 ^ n + uint b"
    using assms by (intro int_or_split) simp_all
  finally show ?thesis by (simp add: take_bit_eq_mod)
qed

lemma pack3_value:
  fixes a b c d :: "32 word"
  assumes "a < 2 ^ 24" "b < 2 ^ 24" "c < 2 ^ 24" "d < 2 ^ 24"
  shows "uint (push_bit 8 a OR drop_bit 16 b) * 2 ^ 64
       + uint (push_bit 16 b OR drop_bit 8 c) * 2 ^ 32
       + uint (push_bit 24 c OR d)
       = uint a * 2 ^ 72 + uint b * 2 ^ 48 + uint c * 2 ^ 24 + uint d"
proof -
  have A: "uint a < 2^24" "uint b < 2^24" "uint c < 2 ^ 24" "uint d < 2 ^ 24"
    using assms by (simp_all add: word_less_def)
  have sb: "uint (drop_bit 16 b) = uint b div 2 ^ 16" and sc: "uint (drop_bit 8 c) = uint c div 2 ^ 8"
    by (simp_all add: drop_bit_eq_div uint_div_distrib)
  have 0: "uint (push_bit 8 a OR drop_bit 16 b) = uint a * 2 ^ 8 + uint b div 2 ^ 16"
    using A by (subst uint_shl_or) (simp_all add: sb)
  have 1: "uint (push_bit 16 b OR drop_bit 8 c) = (uint b mod 2 ^ 16) * 2 ^ 16 + uint c div 2 ^ 8"
    using A by (subst uint_shl_or) (simp_all add: sc)
  have 2: "uint (push_bit 24 c OR d) = (uint c mod 2 ^ 8) * 2 ^ 24 + uint d"
    using A by (subst uint_shl_or) simp_all
  define B1 B0 C1 C0 where "B1 = uint b div 2 ^ 16" and "B0 = uint b mod 2 ^ 16"
    and "C1 = uint c div 2 ^ 8" and "C0 = uint c mod 2 ^ 8"
  have sB: "uint b = B1 * 2 ^ 16 + B0" and sC: "uint c = C1 * 2 ^ 8 + C0"
    by (simp_all add: B1_def B0_def C1_def C0_def)
  show ?thesis
    unfolding 0 1 2 unfolding B1_def [symmetric] B0_def [symmetric] C1_def [symmetric] C0_def [symmetric]
    unfolding sB sC by (simp add: algebra_simps)
qed

lemma concat_nth_uniform:
  assumes "\<forall>v\<in>set xss. length v = w" "i < w * length xss"
  shows "concat xss ! i = xss ! (i div w) ! (i mod w)"
  using assms
proof (induction xss arbitrary: i)
  case Nil
  then show ?case by simp
next
  case (Cons v xss)
  then have lv: "length v = w" and rest: "\<forall>v\<in>set xss. length v = w" by simp_all
  show ?case
  proof (cases "i < w")
    case True
    then show ?thesis by (simp add: nth_append lv)
  next
    case False
    then have ge: "w \<le> i" by simp
    from Cons.prems(2) have "0 < w" by (cases w) simp_all
    have lt: "i - w < w * length xss" using Cons.prems(2) ge by simp
    have d: "i div w = Suc ((i - w) div w)" using ge \<open>0 < w\<close> by (simp add: le_div_geq)
    have m: "i mod w = (i - w) mod w" using ge by (simp add: le_mod_geq)
    have "concat (v # xss) ! i = concat xss ! (i - w)"
      using False by (simp add: nth_append lv)
    also have "\<dots> = xss ! ((i - w) div w) ! ((i - w) mod w)"
      by (rule Cons.IH [OF rest lt])
    finally show ?thesis by (simp add: d m)
  qed
qed

lemma length_concat_uniform:
  "\<forall>v\<in>set xss. length v = w \<Longrightarrow> length (concat xss) = w * length xss"
  by (induction xss) simp_all

lemma length_pack3 [simp]: "length (pack3 shr y j) = 3"
  by (simp add: pack3_def)

lemma length_pack_loop: "length (pack_loop shr (3 * k) 0 0 y) = 3 * k"
proof -
  have "pack_loop shr (0 + 3 * k) 0 0 y = concat (map (\<lambda>g. pack3 shr y (0 + 4 * g)) [0..<k])"
    by (rule pack_loop_closed)
  then show ?thesis by (simp add: length_concat_uniform [where w = 3])
qed

lemma pack_loop_nth:
  assumes "g < k" "r < 3"
  shows "pack_loop shr (3 * k) 0 0 y ! (3 * g + r) = pack3 shr y (4 * g) ! r"
proof -
  have c: "pack_loop shr (0 + 3 * k) 0 0 y = concat (map (\<lambda>g. pack3 shr y (0 + 4 * g)) [0..<k])"
    by (rule pack_loop_closed)
  have "concat (map (\<lambda>g. pack3 shr y (0 + 4 * g)) [0..<k]) ! (3 * g + r)
      = map (\<lambda>g. pack3 shr y (0 + 4 * g)) [0..<k] ! ((3 * g + r) div 3) ! ((3 * g + r) mod 3)"
    using assms by (intro concat_nth_uniform) auto
  also have "(3 * g + r) div 3 = g" using assms(2) by simp
  also have "(3 * g + r) mod 3 = r" using assms(2) by simp
  finally show ?thesis using assms(1) c by simp
qed

lemma scalar_get_uint32_vector_length: "length (scalar_get_uint32_vector xs) = 18"
  using length_pack_loop [of drop_bit 6 xs] by (simp add: scalar_get_uint32_vector_def)

lemma scalar_get_uint32_vector_nth:
  assumes "g < 6"
  shows "scalar_get_uint32_vector xs ! (3 * g) = push_bit 8 (xs ! (4 * g)) OR drop_bit 16 (xs ! (4 * g + 1))"
    and "scalar_get_uint32_vector xs ! (3 * g + 1) = push_bit 16 (xs ! (4 * g + 1)) OR drop_bit 8 (xs ! (4 * g + 2))"
    and "scalar_get_uint32_vector xs ! (3 * g + 2) = push_bit 24 (xs ! (4 * g + 2)) OR xs ! (4 * g + 3)"
  using pack_loop_nth [of g 6 0 drop_bit xs] pack_loop_nth [of g 6 1 drop_bit xs]
    pack_loop_nth [of g 6 2 drop_bit xs] assms
  by (simp_all add: scalar_get_uint32_vector_def pack3_def)

section \<open>The export of the vector engines\<close>

lemma flat_nth:
  assumes "simd_shape w s" "i < w * 24"
  shows "flat s ! i = vx s ! (i div w) ! (i mod w)"
  unfolding flat_def using assms by (intro concat_nth_uniform) (simp_all add: simd_shape_def)

lemma simd_get_uint32_vector_length: "length (simd_get_uint32_vector w y) = w * 18"
proof -
  have e: "w * 18 = 3 * (6 * w)" by simp
  show ?thesis
    unfolding simd_get_uint32_vector_def e by (rule length_pack_loop)
qed

lemma simd_get_uint32_vector_nth:
  assumes "g < 6 * w"
  shows "simd_get_uint32_vector w y ! (3 * g) = push_bit 8 (y ! (4 * g)) OR signed_drop_bit 16 (y ! (4 * g + 1))"
    and "simd_get_uint32_vector w y ! (3 * g + 1) = push_bit 16 (y ! (4 * g + 1)) OR signed_drop_bit 8 (y ! (4 * g + 2))"
    and "simd_get_uint32_vector w y ! (3 * g + 2) = push_bit 24 (y ! (4 * g + 2)) OR y ! (4 * g + 3)"
proof -
  have e: "w * 18 = 3 * (6 * w)" by simp
  show "simd_get_uint32_vector w y ! (3 * g) = push_bit 8 (y ! (4 * g)) OR signed_drop_bit 16 (y ! (4 * g + 1))"
    unfolding simd_get_uint32_vector_def e
    using pack_loop_nth [of g "6 * w" 0 signed_drop_bit y] assms by (simp add: pack3_def)
  show "simd_get_uint32_vector w y ! (3 * g + 1) = push_bit 16 (y ! (4 * g + 1)) OR signed_drop_bit 8 (y ! (4 * g + 2))"
    unfolding simd_get_uint32_vector_def e
    using pack_loop_nth [of g "6 * w" 1 signed_drop_bit y] assms by (simp add: pack3_def)
  show "simd_get_uint32_vector w y ! (3 * g + 2) = push_bit 24 (y ! (4 * g + 2)) OR y ! (4 * g + 3)"
    unfolding simd_get_uint32_vector_def e
    using pack_loop_nth [of g "6 * w" 2 signed_drop_bit y] assms by (simp add: pack3_def)
qed

lemma sse_example_flat: "flat sse_example ! 0 = 1" "flat sse_example ! Suc 0 = 0x10000"
  by (simp_all add: flat_def sse_example_def)

lemma sse_example_lane0: "lane_words sse_example 0 ! 0 = 1" "lane_words sse_example 0 ! Suc 0 = 0"
  by (simp_all add: lane_words_def sse_example_def)

section \<open>The recurrence as a congruential generator\<close>

lemma pack_lanes_append:
  "pack_lanes (xs @ ys) = pack_lanes xs + 2 ^ (24 * length xs) * pack_lanes ys"
  by (induction xs) (simp_all add: algebra_simps power_add)

lemma pack_lanes_bound:
  "\<forall>x\<in>set xs. x < 2 ^ 24 \<Longrightarrow> pack_lanes xs < 2 ^ (24 * length xs)"
proof (induction xs)
  case Nil
  then show ?case by simp
next
  case (Cons x xs)
  then have "x < 2 ^ 24" and IH: "pack_lanes xs < 2 ^ (24 * length xs)" by simp_all
  then have "pack_lanes xs + 1 \<le> 2 ^ (24 * length xs)" by simp
  then have "2 ^ 24 * (pack_lanes xs + 1) \<le> (2::nat) ^ 24 * 2 ^ (24 * length xs)"
    by (rule mult_le_mono2)
  with \<open>x < 2 ^ 24\<close> show ?case by (simp add: power_add)
qed

lemma pack_lanes_drop:
  assumes "\<forall>x\<in>set xs. x < 2 ^ 24" "k \<le> length xs"
  shows "pack_lanes xs div 2 ^ (24 * k) = pack_lanes (drop k xs)"
proof -
  have "\<forall>x\<in>set (take k xs). x < 2 ^ 24" using assms(1) by (meson in_set_takeD)
  then have "pack_lanes (take k xs) < 2 ^ (24 * k)"
    using pack_lanes_bound [of "take k xs"] assms(2) by simp
  moreover have "pack_lanes xs = pack_lanes (take k xs) + 2 ^ (24 * k) * pack_lanes (drop k xs)"
    using pack_lanes_append [of "take k xs" "drop k xs"] assms(2) by simp
  ultimately show ?thesis by simp
qed

lemma swb_ring_identity:
  fixes b :: int
  assumes "v = x14 - x0 - c + b * c'"
  shows "b * ((R + b ^ 23 * v) - (Q + b ^ 9 * v) + c')
       = ((x0 + b * R) - (x14 + b * Q) + c) + v * (b ^ 24 - b ^ 10 + 1)"
  unfolding assms by (simp add: algebra_simps power_numeral_reduce)

lemma int_lcg_raw:
  "int (lcg_raw s) = int (pack_lanes (lanes s)) - int (pack_lanes (lanes s) div 2 ^ 336) + int (borrow s)"
proof -
  have "pack_lanes (lanes s) div 2 ^ 336 \<le> pack_lanes (lanes s)" by (rule div_le_dividend)
  then show ?thesis unfolding lcg_raw_def Let_def by (simp add: of_nat_diff)
qed

lemma swb_new_mod:
  assumes "valid_state s"
  shows "swb_new s mod 2 ^ 24 = swb_new s + 2 ^ 24 * (if swb_new s < 0 then 1 else 0)"
proof -
  have "lanes s ! 14 < 2 ^ 24" "lanes s ! 0 < 2 ^ 24" "borrow s \<le> 1"
    using assms by (simp_all add: valid_state_def)
  then have B: "- (2 ^ 24) \<le> swb_new s" "swb_new s < 2 ^ 24"
    by (simp_all add: swb_new_def)
  show ?thesis
  proof (cases "swb_new s < 0")
    case True
    have "swb_new s mod 2 ^ 24 = (swb_new s + 2 ^ 24) mod 2 ^ 24" by simp
    also have "\<dots> = swb_new s + 2 ^ 24" using True B by (intro mod_pos_pos_trivial) simp_all
    finally show ?thesis using True by simp
  next
    case False
    then show ?thesis using B by (simp add: mod_pos_pos_trivial)
  qed
qed

lemma valid_lanes_Cons:
  assumes "valid_state s"
  obtains x0 rest where "lanes s = x0 # rest" "length rest = 23"
proof -
  from assms have "length (lanes s) = 24" by (simp add: valid_state_def)
  then obtain x0 rest where "lanes s = x0 # rest" by (cases "lanes s") auto
  with \<open>length (lanes s) = 24\<close> that show thesis by simp
qed

lemma swb_step_identity:
  assumes "valid_state s"
  shows "2 ^ 24 * lcg_raw (swb_substep s) = lcg_raw s + nat (swb_new s mod 2 ^ 24) * modulus_m"
proof -
  from assms obtain x0 rest where xs: "lanes s = x0 # rest" and len: "length rest = 23"
    by (rule valid_lanes_Cons)
  have small: "\<forall>x\<in>set (lanes s). x < 2 ^ 24" using assms by (simp add: valid_state_def)
  define v where "v = nat (swb_new s mod 2 ^ 24)"
  define c' :: int where "c' = (if swb_new s < 0 then 1 else 0)"
  define R where "R = pack_lanes rest"
  define Q where "Q = pack_lanes (drop 14 rest)"
  have vlt: "v < 2 ^ 24" by (simp add: v_def nat_less_iff)
  have iv: "int v = swb_new s + 2 ^ 24 * c'"
    using swb_new_mod [OF assms] by (simp add: v_def c'_def)
  have x14: "lanes s ! 14 = rest ! 13" by (simp add: xs)
  have d13: "drop 13 rest = rest ! 13 # drop 14 rest"
    using len Cons_nth_drop_Suc [of 13 rest] by simp
  have y: "pack_lanes (lanes s) = x0 + 2 ^ 24 * R" by (simp add: xs R_def)
  have "pack_lanes (lanes s) div 2 ^ (24 * 14) = pack_lanes (drop 14 (lanes s))"
    using small by (intro pack_lanes_drop) (simp_all add: xs len)
  then have H: "pack_lanes (lanes s) div 2 ^ 336 = rest ! 13 + 2 ^ 24 * Q"
    by (simp add: xs d13 Q_def)
  have l': "lanes (swb_substep s) = rest @ [v]" and b': "int (borrow (swb_substep s)) = c'"
    by (simp_all add: swb_substep_def Let_def xs v_def c'_def)
  have small': "\<forall>x\<in>set (rest @ [v]). x < 2 ^ 24" using small vlt by (simp add: xs)
  have y': "pack_lanes (rest @ [v]) = R + 2 ^ (24 * 23) * v"
    by (simp add: pack_lanes_append len R_def)
  have "pack_lanes (rest @ [v]) div 2 ^ (24 * 14) = pack_lanes (drop 14 (rest @ [v]))"
    using small' by (intro pack_lanes_drop) (simp_all add: len)
  then have H': "pack_lanes (rest @ [v]) div 2 ^ 336 = Q + 2 ^ (24 * 9) * v"
    by (simp add: len pack_lanes_append Q_def)
  define b :: int where "b = 2 ^ 24"
  have X0: "int (lcg_raw s) = (int x0 + b * int R) - (int (rest ! 13) + b * int Q) + int (borrow s)"
    by (subst int_lcg_raw, simp only: H, simp only: y, simp add: b_def)
  have X1: "int (lcg_raw (swb_substep s)) = (int R + b ^ 23 * int v) - (int Q + b ^ 9 * int v) + c'"
    by (subst int_lcg_raw, simp only: l' b', simp only: H', simp only: y', simp add: b_def)
  have M: "int modulus_m = b ^ 24 - b ^ 10 + 1"
    by (simp add: b_def modulus_m_def)
  have V: "int v = int (rest ! 13) - int x0 - int (borrow s) + b * c'"
    using iv by (simp add: swb_new_def xs b_def)
  have "b * int (lcg_raw (swb_substep s)) = int (lcg_raw s) + int v * int modulus_m"
    unfolding X0 X1 M by (rule swb_ring_identity [OF V])
  then have "int (2 ^ 24 * lcg_raw (swb_substep s)) = int (lcg_raw s + v * modulus_m)"
    by (simp add: b_def)
  then show ?thesis unfolding v_def by (simp only: of_nat_eq_iff)
qed

lemma valid_swb_substep:
  assumes "valid_state s"
  shows "valid_state (swb_substep s)"
proof -
  from assms obtain x0 rest where xs: "lanes s = x0 # rest" and len: "length rest = 23"
    by (rule valid_lanes_Cons)
  have "nat (swb_new s mod 2 ^ 24) < 2 ^ 24" by (simp add: nat_less_iff)
  with assms show ?thesis
    by (auto simp: valid_state_def swb_substep_def Let_def xs len)
qed

lemma valid_funpow: "valid_state s \<Longrightarrow> valid_state ((swb_substep ^^ n) s)"
  by (induction n) (simp_all add: valid_swb_substep)

lemma pack_lanes_max:
  assumes "\<forall>x\<in>set xs. x < 2 ^ 24" "pack_lanes xs + 1 = 2 ^ (24 * length xs)"
  shows "xs = replicate (length xs) (2 ^ 24 - 1)"
  using assms
proof (induction xs)
  case Nil
  then show ?case by simp
next
  case (Cons x xs)
  then have x: "x < 2 ^ 24" and small: "\<forall>x\<in>set xs. x < 2 ^ 24" by simp_all
  have P: "pack_lanes xs < 2 ^ (24 * length xs)" using small by (rule pack_lanes_bound)
  from Cons.prems(2) have eq: "x + 1 + 2 ^ 24 * pack_lanes xs = 2 ^ 24 * 2 ^ (24 * length xs)"
    by (simp add: power_add)
  have "pack_lanes xs + 1 = 2 ^ (24 * length xs)"
  proof (rule ccontr)
    assume "pack_lanes xs + 1 \<noteq> 2 ^ (24 * length xs)"
    with P have "pack_lanes xs + 2 \<le> 2 ^ (24 * length xs)" by simp
    then have "2 ^ 24 * (pack_lanes xs + 2) \<le> (2::nat) ^ 24 * 2 ^ (24 * length xs)"
      by (rule mult_le_mono2)
    with eq x show False by simp
  qed
  with eq have "x + 1 = 2 ^ 24" by simp
  then have "x = 2 ^ 24 - 1" by simp
  with Cons.IH [OF small \<open>pack_lanes xs + 1 = 2 ^ (24 * length xs)\<close>] show ?case by simp
qed

lemma lcg_raw_split:
  assumes "valid_state s"
  shows "lcg_raw s = pack_lanes (take 14 (lanes s)) + (2 ^ 336 - 1) * pack_lanes (drop 14 (lanes s)) + borrow s"
proof -
  have small: "\<forall>x\<in>set (lanes s). x < 2 ^ 24" and len: "length (lanes s) = 24"
    using assms by (simp_all add: valid_state_def)
  have "pack_lanes (lanes s) div 2 ^ (24 * 14) = pack_lanes (drop 14 (lanes s))"
    using small len by (intro pack_lanes_drop) simp_all
  then have H: "pack_lanes (lanes s) div 2 ^ 336 = pack_lanes (drop 14 (lanes s))" by simp
  have "pack_lanes (take 14 (lanes s) @ drop 14 (lanes s))
      = pack_lanes (take 14 (lanes s)) + 2 ^ (24 * 14) * pack_lanes (drop 14 (lanes s))"
    by (subst pack_lanes_append) (simp add: len)
  then have Y: "pack_lanes (lanes s) = pack_lanes (take 14 (lanes s)) + 2 ^ 336 * pack_lanes (drop 14 (lanes s))"
    by simp
  show ?thesis
    unfolding lcg_raw_def Let_def H by (subst Y) (simp add: algebra_simps)
qed

lemma extremal_sum:
  fixes L H c A B :: nat
  assumes "L \<le> A" "H \<le> B" "c \<le> 1" "0 < A" "A + A * B + 1 \<le> L + A * H + c"
  shows "L = A \<and> H = B \<and> c = 1"
proof -
  have HB: "H = B"
  proof (rule ccontr)
    assume "H \<noteq> B"
    with assms(2) have "H + 1 \<le> B" by simp
    then have "A * (H + 1) \<le> A * B" by (rule mult_le_mono2)
    then have "A * H + A \<le> A * B" by (simp add: algebra_simps)
    with assms show False by linarith
  qed
  with assms show ?thesis by simp
qed

lemma lcg_raw_lt:
  assumes "valid_state s" "s \<noteq> degenerate_state"
  shows "lcg_raw s < modulus_m"
proof -
  have small: "\<forall>x\<in>set (lanes s). x < 2 ^ 24" and len: "length (lanes s) = 24" and c: "borrow s \<le> 1"
    using assms(1) by (simp_all add: valid_state_def)
  define L where "L = pack_lanes (take 14 (lanes s))"
  define H where "H = pack_lanes (drop 14 (lanes s))"
  define A :: nat where "A = 2 ^ 336 - 1"
  define B :: nat where "B = 2 ^ 240 - 1"
  have "\<forall>x\<in>set (take 14 (lanes s)). x < 2 ^ 24" using small by (meson in_set_takeD)
  from pack_lanes_bound [OF this] have L: "L \<le> A" by (simp add: L_def len A_def)
  have "\<forall>x\<in>set (drop 14 (lanes s)). x < 2 ^ 24" using small by (meson in_set_dropD)
  from pack_lanes_bound [OF this] have H: "H \<le> B" by (simp add: H_def len B_def)
  have X: "lcg_raw s = L + A * H + borrow s"
    using lcg_raw_split [OF assms(1)] by (simp add: L_def H_def A_def)
  have m: "modulus_m = A + A * B + 1"
    by (simp add: modulus_m_def A_def B_def)
  have A0: "0 < A" by (simp add: A_def)
  show ?thesis
  proof (rule ccontr)
    assume "\<not> lcg_raw s < modulus_m"
    then have "A + A * B + 1 \<le> L + A * H + borrow s"
      unfolding X m by simp
    from extremal_sum [OF L H c A0 this]
    have L1: "L = A" and H1: "H = B" and c1: "borrow s = 1" by simp_all
    have "pack_lanes (take 14 (lanes s) @ drop 14 (lanes s)) = L + 2 ^ (24 * 14) * H"
      unfolding L_def H_def by (subst pack_lanes_append) (simp add: len)
    then have "pack_lanes (lanes s) + 1 = 2 ^ (24 * length (lanes s))"
      by (simp add: L1 H1 len A_def B_def)
    from pack_lanes_max [OF small this] have "lanes s = replicate 24 (2 ^ 24 - 1)"
      by (simp add: len)
    with c1 have "s = degenerate_state" by (simp add: degenerate_state_def)
    with assms(2) show False by simp
  qed
qed

lemma lcg_raw_step_lt:
  assumes "valid_state s" "lcg_raw s < modulus_m"
  shows "lcg_raw (swb_substep s) < modulus_m"
proof -
  define v where "v = nat (swb_new s mod 2 ^ 24)"
  have "v < 2 ^ 24" by (simp add: v_def nat_less_iff)
  then have "v + 1 \<le> 2 ^ 24" by simp
  then have A: "(v + 1) * modulus_m \<le> 2 ^ 24 * modulus_m" by (rule mult_le_mono1)
  have "2 ^ 24 * lcg_raw (swb_substep s) = lcg_raw s + v * modulus_m"
    unfolding v_def by (rule swb_step_identity [OF assms(1)])
  also have "\<dots> < modulus_m + v * modulus_m" using assms(2) by simp
  also have "\<dots> = (v + 1) * modulus_m" by simp
  also note A
  finally show ?thesis by simp
qed

lemma lcg_raw_funpow_lt:
  "valid_state s \<Longrightarrow> lcg_raw s < modulus_m \<Longrightarrow> lcg_raw ((swb_substep ^^ n) s) < modulus_m"
  by (induction n) (simp_all add: lcg_raw_step_lt valid_funpow)

lemma mult_a_inverse: "mult_a * 2 ^ 24 = (2 ^ 24 - 1) * modulus_m + 1"
  by (simp add: mult_a_def modulus_m_def)

lemma modulus_m_gt_1: "1 < modulus_m"
  by (simp add: modulus_m_def)

lemma toLCGState_substep:
  assumes "valid_state s"
  shows "toLCGState (swb_substep s) = (toLCGState s * mult_a) mod modulus_m"
proof -
  define v where "v = nat (swb_new s mod 2 ^ 24)"
  define X' where "X' = lcg_raw (swb_substep s)"
  have id: "2 ^ 24 * X' = lcg_raw s + v * modulus_m"
    unfolding v_def X'_def by (rule swb_step_identity [OF assms])
  have "(lcg_raw s * mult_a) mod modulus_m = ((lcg_raw s + v * modulus_m) * mult_a) mod modulus_m"
    by (simp add: algebra_simps)
  also have "\<dots> = (X' * (mult_a * 2 ^ 24)) mod modulus_m"
    unfolding id [symmetric] by (simp add: mult_ac)
  also have "\<dots> = (X' + (X' * (2 ^ 24 - 1)) * modulus_m) mod modulus_m"
    by (simp only: mult_a_inverse) (simp add: algebra_simps)
  also have "\<dots> = X' mod modulus_m"
    by (simp only: mod_mult_self1)
  finally have "X' mod modulus_m = (lcg_raw s * mult_a) mod modulus_m" by simp
  then show ?thesis
    unfolding toLCGState_def X'_def by (simp add: mod_mult_left_eq)
qed

lemma toLCGState_funpow:
  assumes "valid_state s"
  shows "toLCGState ((swb_substep ^^ p) s) = lcg_nextstate p (toLCGState s)"
proof (induction p)
  case 0
  have "toLCGState s < modulus_m" unfolding toLCGState_def using modulus_m_gt_1 by simp
  then show ?case using modulus_m_gt_1 by (simp add: lcg_nextstate_def multiplier_A_def)
next
  case (Suc p)
  have "toLCGState ((swb_substep ^^ Suc p) s) = (toLCGState ((swb_substep ^^ p) s) * mult_a) mod modulus_m"
    using valid_funpow [OF assms] by (simp add: toLCGState_substep)
  also have "\<dots> = ((toLCGState s * multiplier_A p) mod modulus_m * mult_a) mod modulus_m"
    by (simp only: Suc.IH lcg_nextstate_def)
  also have "\<dots> = (toLCGState s * (mult_a ^ Suc p mod modulus_m)) mod modulus_m"
    unfolding multiplier_A_def
    by (simp add: mod_mult_left_eq mod_mult_right_eq mult_ac)
  finally show ?case by (simp only: lcg_nextstate_def multiplier_A_def)
qed

lemma lcg_nextstate_funpow:
  assumes "valid_state s"
  shows "(lcg_nextstate p ^^ n) (toLCGState s) = toLCGState ((swb_substep ^^ (p * n)) s)"
proof (induction n)
  case 0
  then show ?case by simp
next
  case (Suc n)
  have "(swb_substep ^^ (p * Suc n)) s = (swb_substep ^^ p) ((swb_substep ^^ (p * n)) s)"
    by (simp add: funpow_add add.commute)
  then show ?case
    using valid_funpow [OF assms, of "p * n"] by (simp add: Suc.IH toLCGState_funpow)
qed

lemma lanes_swb_substep:
  "lanes (swb_substep s) = tl (lanes s) @ [nat (swb_new s mod 2 ^ 24)]"
  by (simp add: swb_substep_def Let_def)

lemma swb_history:
  assumes "valid_state u" "k \<le> 24"
  shows "2 ^ (24 * k) * lcg_raw ((swb_substep ^^ k) u)
       = lcg_raw u + modulus_m * pack_lanes (drop (24 - k) (lanes ((swb_substep ^^ k) u)))"
  using assms(2)
proof (induction k)
  case 0
  have "length (lanes u) = 24" using assms(1) by (simp add: valid_state_def)
  then show ?case by simp
next
  case (Suc k)
  define t where "t = (swb_substep ^^ k) u"
  define v where "v = nat (swb_new t mod 2 ^ 24)"
  have vt: "valid_state t" unfolding t_def by (rule valid_funpow [OF assms(1)])
  then have len: "length (lanes t) = 24" by (simp add: valid_state_def)
  have IH: "2 ^ (24 * k) * lcg_raw t = lcg_raw u + modulus_m * pack_lanes (drop (24 - k) (lanes t))"
    using Suc by (simp add: t_def)
  have step: "2 ^ 24 * lcg_raw (swb_substep t) = lcg_raw t + v * modulus_m"
    unfolding v_def by (rule swb_step_identity [OF vt])
  have e: "24 - k = Suc (24 - Suc k)" using Suc.prems by simp
  have "drop (24 - Suc k) (tl (lanes t) @ [v]) = drop (24 - Suc k) (tl (lanes t)) @ [v]"
    using len Suc.prems by simp
  also have "drop (24 - Suc k) (tl (lanes t)) = drop (24 - k) (lanes t)"
    unfolding e by (simp add: drop_Suc)
  finally have dr: "drop (24 - Suc k) (lanes (swb_substep t)) = drop (24 - k) (lanes t) @ [v]"
    by (simp add: lanes_swb_substep v_def)
  have P: "pack_lanes (drop (24 - k) (lanes t) @ [v]) = pack_lanes (drop (24 - k) (lanes t)) + 2 ^ (24 * k) * v"
    using len Suc.prems by (simp add: pack_lanes_append)
  have "2 ^ (24 * Suc k) * lcg_raw (swb_substep t) = 2 ^ (24 * k) * (2 ^ 24 * lcg_raw (swb_substep t))"
    by (simp add: power_add)
  also have "\<dots> = 2 ^ (24 * k) * lcg_raw t + 2 ^ (24 * k) * (v * modulus_m)"
    by (simp only: step distrib_left)
  also have "\<dots> = lcg_raw u + modulus_m * pack_lanes (drop (24 - Suc k) (lanes (swb_substep t)))"
    by (simp only: IH dr P) (simp add: algebra_simps)
  finally show ?case by (simp add: t_def)
qed

lemma unpack_pack_lanes:
  assumes "length xs = 24" "\<forall>x\<in>set xs. x < 2 ^ 24"
  shows "unpack_lanes (pack_lanes xs) = xs"
proof (rule nth_equalityI)
  show "length (unpack_lanes (pack_lanes xs)) = length xs"
    by (simp add: unpack_lanes_def assms(1))
next
  fix k assume "k < length (unpack_lanes (pack_lanes xs))"
  then have k: "k < 24" by (simp add: unpack_lanes_def)
  have "pack_lanes xs div 2 ^ (24 * k) = pack_lanes (drop k xs)"
    using assms k by (intro pack_lanes_drop) simp_all
  also have "drop k xs = xs ! k # drop (Suc k) xs"
    using k assms(1) by (simp add: Cons_nth_drop_Suc)
  finally have "pack_lanes xs div 2 ^ (24 * k) mod 2 ^ 24 = xs ! k mod 2 ^ 24"
    by simp
  moreover have "xs ! k < 2 ^ 24" using assms k by simp
  ultimately show "unpack_lanes (pack_lanes xs) ! k = xs ! k"
    using k by (simp add: unpack_lanes_def)
qed

lemma roundtrip_after_24:
  assumes "valid_state u" "lcg_raw u < modulus_m"
  shows "toSWBState (toLCGState ((swb_substep ^^ 24) u)) = (swb_substep ^^ 24) u"
proof -
  define t where "t = (swb_substep ^^ 24) u"
  define Y where "Y = pack_lanes (lanes t)"
  have vt: "valid_state t" unfolding t_def by (rule valid_funpow [OF assms(1)])
  have Xt: "lcg_raw t < modulus_m" unfolding t_def by (rule lcg_raw_funpow_lt [OF assms])
  have "2 ^ (24 * 24) * lcg_raw t = lcg_raw u + modulus_m * pack_lanes (drop (24 - 24) (lanes t))"
    unfolding t_def using assms(1) by (intro swb_history) simp_all
  then have "lcg_raw t * 2 ^ 576 = lcg_raw u + modulus_m * Y"
    by (simp add: Y_def mult.commute)
  then have D: "(lcg_raw t * 2 ^ 576) div modulus_m = Y"
    using assms(2) by simp
  have "Y div 2 ^ 336 \<le> Y" by (rule div_le_dividend)
  then have B: "lcg_raw t + Y div 2 ^ 336 - Y = borrow t"
    by (simp add: lcg_raw_def Let_def Y_def)
  have "unpack_lanes Y = lanes t"
    unfolding Y_def using vt by (intro unpack_pack_lanes) (simp_all add: valid_state_def)
  then have "toSWBState (lcg_raw t) = t"
    unfolding toSWBState_def Let_def D B by simp
  then show ?thesis
    using Xt by (simp add: toLCGState_def t_def)
qed

lemma roundtrip_reachable:
  assumes "valid_state u" "u \<noteq> degenerate_state" "24 \<le> n"
  shows "toSWBState (toLCGState ((swb_substep ^^ n) u)) = (swb_substep ^^ n) u"
proof -
  define w where "w = (swb_substep ^^ (n - 24)) u"
  have "valid_state w" unfolding w_def by (rule valid_funpow [OF assms(1)])
  moreover have "lcg_raw w < modulus_m"
    unfolding w_def by (intro lcg_raw_funpow_lt lcg_raw_lt assms)
  moreover have "(swb_substep ^^ n) u = (swb_substep ^^ 24) w"
  proof -
    have "(swb_substep ^^ (24 + (n - 24))) u = (swb_substep ^^ 24) w"
      unfolding w_def by (simp only: funpow_add o_apply)
    then show ?thesis using assms(3) by simp
  qed
  ultimately show ?thesis by (simp add: roundtrip_after_24)
qed

section \<open>The 24-bit invariant and the draws\<close>

lemma ulp24_small:
  assumes "a < 2 ^ 24"
  shows "ulp24 8 a = 1"
proof -
  have "ulp24 8 a = ulp24 (Suc 7) a" by simp
  also have "\<dots> = 1" using assms by (simp only: ulp24.simps if_True)
  finally show ?thesis .
qed

lemma int32_to_float_exact:
  assumes "0 \<le> i" "i < 2 ^ 24"
  shows "int32_to_float i = i"
proof -
  have "nat \<bar>i\<bar> < 2 ^ 24" using assms by (simp add: nat_less_iff)
  then have "ulp24 8 (nat \<bar>i\<bar>) = 1" by (rule ulp24_small)
  then show ?thesis using assms by (simp add: int32_to_float_def Let_def sgn_if)
qed

lemma tofloat24_unit_interval:
  fixes v :: "32 word"
  assumes "v < 2 ^ 24"
  shows "0 \<le> tofloat24 v \<and> tofloat24 v < 1"
proof -
  have u: "uint v < 2 ^ 24" using assms by (simp add: word_less_def)
  have "sint v = signed_take_bit 31 (uint v)" by (simp add: sint_uint)
  also have "\<dots> = uint v"
  proof (rule signed_take_bit_int_eq_self)
    show "- (2 ^ 31) \<le> uint v" by (rule order_trans [OF _ uint_ge_0]) simp
    show "uint v < 2 ^ 31" using u by simp
  qed
  finally have s: "sint v = uint v" .
  have "int32_to_float (sint v) = uint v"
    unfolding s using u by (intro int32_to_float_exact) simp_all
  then have e: "tofloat24 v = real_of_int (uint v) / 2 ^ 24" by (simp add: tofloat24_def)
  have "real_of_int (uint v) < real_of_int (2 ^ 24)" using u by (simp only: of_int_less_iff)
  then have lt: "real_of_int (uint v) < 2 ^ 24" by simp
  have ge: "0 \<le> real_of_int (uint v)" by (simp only: of_int_0_le_iff uint_ge_0)
  show ?thesis unfolding e using lt ge by simp
qed

lemma word24_of_nat:
  assumes "n < 2 ^ 24"
  shows "(word_of_nat n :: 32 word) < 2 ^ 24"
proof -
  have "unat (word_of_nat n :: 32 word) = n"
    using assms by (intro of_nat_inverse) simp_all
  then show ?thesis using assms by (simp add: word_less_nat_alt)
qed

lemma word24_of_nat_numeral:
  "n < 16777216 \<Longrightarrow> (word_of_nat n :: 32 word) < 16777216"
  using word24_of_nat [of n] by simp

lemma substep_lanes_ok:
  assumes "length (lanes u) = 24" "\<forall>x\<in>set (lanes u). x < 2 ^ 24"
  shows "length (lanes (swb_substep u)) = 24 \<and> (\<forall>x\<in>set (lanes (swb_substep u)). x < 2 ^ 24)"
proof -
  have "nat (swb_new u mod 2 ^ 24) < 2 ^ 24" by (simp add: nat_less_iff)
  moreover have "\<forall>x\<in>set (tl (lanes u)). x < 2 ^ 24"
    using assms by (cases "lanes u") simp_all
  ultimately show ?thesis using assms(1) by (simp add: lanes_swb_substep)
qed

lemma funpow_lanes_ok:
  assumes "length (lanes u) = 24" "\<forall>x\<in>set (lanes u). x < 2 ^ 24"
  shows "length (lanes ((swb_substep ^^ n) u)) = 24 \<and> (\<forall>x\<in>set (lanes ((swb_substep ^^ n) u)). x < 2 ^ 24)"
proof (induction n)
  case 0
  show ?case using assms by simp
next
  case (Suc n)
  then show ?case using substep_lanes_ok [of "(swb_substep ^^ n) u"] by simp
qed

lemma scalar_nextstate_spec_frame:
  "spos (scalar_nextstate_spec n s) = spos s" "sp (scalar_nextstate_spec n s) = sp s"
  by (simp_all add: scalar_nextstate_spec_def Let_def)

lemma scalar_nextstate_spec_lanes24:
  assumes "lanes24 (sx s)"
  shows "lanes24 (sx (scalar_nextstate_spec n s))"
proof -
  define u where "u = (swb_substep ^^ (24 * nat n)) (scalar_unpacked s)"
  have "length (lanes (scalar_unpacked s)) = 24" "\<forall>x\<in>set (lanes (scalar_unpacked s)). x < 2 ^ 24"
    using assms by (auto simp: lanes24_def scalar_unpacked_def word_less_nat_alt)
  then have "length (lanes u) = 24 \<and> (\<forall>x\<in>set (lanes u). x < 2 ^ 24)"
    unfolding u_def by (rule funpow_lanes_ok)
  then have "lanes24 (map word_of_nat (lanes u))"
    by (auto simp: lanes24_def word24_of_nat_numeral)
  then show ?thesis by (simp add: scalar_nextstate_spec_def Let_def u_def)
qed

lemma scalar_nextstate_spec_inv:
  "scalar_inv s \<Longrightarrow> scalar_inv (scalar_nextstate_spec n s)"
  by (simp add: scalar_inv_def scalar_nextstate_spec_lanes24 scalar_nextstate_spec_frame)

lemma scalar_call_inv:
  assumes "scalar_inv s"
  shows "\<exists>f s1. scalar_call scalar_nextstate_spec s = Some (f, s1) \<and> 0 \<le> f \<and> f < 1 \<and> scalar_inv s1"
proof -
  define s0 where "s0 = (if spos s \<ge> 24 then scalar_nextstate_spec (sp s) (s\<lparr>spos := 0\<rparr>) else s)"
  have "scalar_inv (s\<lparr>spos := 0\<rparr>)" using assms by (simp add: scalar_inv_def)
  then have inv0: "scalar_inv s0"
    using assms by (simp add: s0_def scalar_nextstate_spec_inv)
  have pos0: "0 \<le> spos s0" "spos s0 < 24"
    using assms by (auto simp: s0_def scalar_nextstate_spec_frame scalar_inv_def)
  then have "nat (spos s0) < length (sx s0)"
    using inv0 by (simp add: scalar_inv_def lanes24_def)
  then have "sx s0 ! nat (spos s0) < 2 ^ 24"
    using inv0 by (simp add: scalar_inv_def lanes24_def)
  from tofloat24_unit_interval [OF this]
  have f: "0 \<le> tofloat24 (sx s0 ! nat (spos s0))" "tofloat24 (sx s0 ! nat (spos s0)) < 1" by simp_all
  have "scalar_inv (s0\<lparr>spos := spos s0 + 1\<rparr>)"
    using inv0 by (simp add: scalar_inv_def)
  moreover have "scalar_call scalar_nextstate_spec s
      = Some (tofloat24 (sx s0 ! nat (spos s0)), s0\<lparr>spos := spos s0 + 1\<rparr>)"
    using pos0 by (simp add: scalar_call_def Let_def s0_def)
  ultimately show ?thesis using f by simp
qed

lemma simd_nextstate_spec_frame:
  "vpos (simd_nextstate_spec w n s) = vpos s" "vp (simd_nextstate_spec w n s) = vp s"
  by (simp_all add: simd_nextstate_spec_def Let_def)


lemma simd_nextstate_spec_shape: "simd_shape w (simd_nextstate_spec w n s)"
  by (simp add: simd_shape_def simd_nextstate_spec_def Let_def)

lemma simd_nextstate_spec_lanes:
  assumes "simd_shape w s" "\<forall>v\<in>set (vx s). \<forall>x\<in>set v. x < 2 ^ 24"
  shows "\<forall>v\<in>set (vx (simd_nextstate_spec w n s)). \<forall>x\<in>set v. x < 2 ^ 24"
proof -
  define us where "us = map (\<lambda>l. (swb_substep ^^ (24 * nat n)) (simd_unpacked s l)) [0..<w]"
  have ok: "length (lanes (us ! l)) = 24 \<and> (\<forall>x\<in>set (lanes (us ! l)). x < 2 ^ 24)" if "l < w" for l
  proof -
    have "length (lanes (simd_unpacked s l)) = 24"
      using assms(1) by (simp add: simd_unpacked_def lane_words_def simd_shape_def)
    moreover have "\<forall>x\<in>set (lanes (simd_unpacked s l)). x < 2 ^ 24"
    proof
      fix x assume "x \<in> set (lanes (simd_unpacked s l))"
      then obtain v where v: "v \<in> set (vx s)" and x: "x = unat (v ! l)"
        by (auto simp: simd_unpacked_def lane_words_def)
      from v assms(1) that have "v ! l \<in> set v" by (simp add: simd_shape_def)
      with v assms(2) have "v ! l < 2 ^ 24" by blast
      then show "x < 2 ^ 24" by (simp add: x word_less_nat_alt)
    qed
    ultimately have "length (lanes ((swb_substep ^^ (24 * nat n)) (simd_unpacked s l))) = 24
        \<and> (\<forall>x\<in>set (lanes ((swb_substep ^^ (24 * nat n)) (simd_unpacked s l))). x < 2 ^ 24)"
      by (rule funpow_lanes_ok)
    then show ?thesis using that by (simp add: us_def)
  qed
  have "(word_of_nat (lanes (us ! l) ! k) :: 32 word) < 2 ^ 24" if "l < w" "k < 24" for l k
  proof -
    from ok [OF that(1)] that(2) have "lanes (us ! l) ! k < 2 ^ 24" by simp
    then show ?thesis by (rule word24_of_nat)
  qed
  then have "\<forall>v\<in>set (map (\<lambda>k. map (\<lambda>l. word_of_nat (lanes (us ! l) ! k) :: 32 word) [0..<w]) [0..<24]).
      \<forall>x\<in>set v. x < 2 ^ 24"
    by auto
  then show ?thesis
    by (simp add: simd_nextstate_spec_def Let_def us_def)
qed

lemma simd_nextstate_spec_inv:
  "simd_inv w s \<Longrightarrow> simd_inv w (simd_nextstate_spec w n s)"
  unfolding simd_inv_def
  using simd_nextstate_spec_lanes [of w s n]
  by (simp add: simd_nextstate_spec_shape simd_nextstate_spec_frame)

lemma length_flat: "simd_shape w s \<Longrightarrow> length (flat s) = w * 24"
  unfolding flat_def by (subst length_concat_uniform [where w = w]) (simp_all add: simd_shape_def)

lemma simd_call_inv:
  assumes "simd_inv w s" "0 < w"
  shows "\<exists>f s1. simd_call w (simd_nextstate_spec w) s = Some (f, s1) \<and> 0 \<le> f \<and> f < 1 \<and> simd_inv w s1"
proof -
  define s0 where "s0 = (if vpos s \<ge> int w * 24 then simd_nextstate_spec w (vp s) (s\<lparr>vpos := 0\<rparr>) else s)"
  have "simd_inv w (s\<lparr>vpos := 0\<rparr>)" using assms by (simp add: simd_inv_def simd_shape_def)
  then have inv0: "simd_inv w s0"
    using assms by (simp add: s0_def simd_nextstate_spec_inv)
  have pos0: "0 \<le> vpos s0" "vpos s0 < int w * 24"
    using assms by (auto simp: s0_def simd_nextstate_spec_frame simd_inv_def)
  have "length (flat s0) = w * 24" using inv0 by (simp add: simd_inv_def length_flat)
  with pos0 have "nat (vpos s0) < length (flat s0)" by (simp add: nat_less_iff)
  then have "flat s0 ! nat (vpos s0) \<in> set (flat s0)" by simp
  then have "flat s0 ! nat (vpos s0) < 2 ^ 24"
    using inv0 unfolding simd_inv_def flat_def by auto
  from tofloat24_unit_interval [OF this]
  have f: "0 \<le> tofloat24 (flat s0 ! nat (vpos s0))" "tofloat24 (flat s0 ! nat (vpos s0)) < 1" by simp_all
  have "simd_inv w (s0\<lparr>vpos := vpos s0 + 1\<rparr>)"
    using inv0 by (simp add: simd_inv_def simd_shape_def)
  moreover have "simd_call w (simd_nextstate_spec w) s
      = Some (tofloat24 (flat s0 ! nat (vpos s0)), s0\<lparr>vpos := vpos s0 + 1\<rparr>)"
    using pos0 by (simp add: simd_call_def Let_def s0_def)
  ultimately show ?thesis using f by simp
qed

section \<open>The draws of one batch\<close>

lemma simd_call_in_batch:
  assumes "simd_shape w s" "vpos s = int j" "j < w * 24"
  shows "simd_call w ns s = Some (tofloat24 (vx s ! (j div w) ! (j mod w)), s\<lparr>vpos := int (Suc j)\<rparr>)"
proof -
  have "int j < int w * 24" using assms(3) by (metis of_nat_less_iff of_nat_mult of_nat_numeral)
  then show ?thesis
    using assms by (simp add: simd_call_def Let_def flat_nth add.commute)
qed

lemma simd_draws_in_batch:
  assumes "simd_shape w s" "vpos s = int j" "j + k \<le> w * 24"
  shows "simd_draws w ns k s
       = Some (map (\<lambda>i. tofloat24 (vx s ! (i div w) ! (i mod w))) [j..<j + k], s\<lparr>vpos := int (j + k)\<rparr>)"
  using assms
proof (induction k arbitrary: s j)
  case 0
  then show ?case by simp
next
  case (Suc k)
  define s1 where "s1 = s\<lparr>vpos := int (Suc j)\<rparr>"
  have c: "simd_call w ns s = Some (tofloat24 (vx s ! (j div w) ! (j mod w)), s1)"
    unfolding s1_def using Suc.prems by (intro simd_call_in_batch) simp_all
  have "simd_shape w s1" "vpos s1 = int (Suc j)" "Suc j + k \<le> w * 24"
    using Suc.prems by (simp_all add: s1_def simd_shape_def)
  from Suc.IH [OF this]
  have d: "simd_draws w ns k s1
      = Some (map (\<lambda>i. tofloat24 (vx s ! (i div w) ! (i mod w))) [Suc j..<Suc j + k], s\<lparr>vpos := int (Suc j + k)\<rparr>)"
    by (simp add: s1_def)
  have "[j..<j + Suc k] = j # [Suc j..<Suc j + k]" by (simp add: upt_conv_Cons)
  then show ?case by (simp add: c d del: upt_Suc)
qed

section \<open>The scalar engine against the congruential generator\<close>

lemma getstate_unpacked_eq:
  assumes "length (sx s) = 24"
  shows "getstate_unpacked s = scalar_unpacked s"
proof -
  have "map (\<lambda>i. sx s ! i) [0..<24] = sx s"
    using map_nth [of "sx s"] assms by simp
  then show ?thesis
    by (simp add: getstate_unpacked_def scalar_getstate_def scalar_unpacked_def)
qed

lemma scalar_unpacked_nextstate:
  assumes "valid_state (scalar_unpacked s)"
  shows "scalar_unpacked (scalar_nextstate_spec n s) = (swb_substep ^^ (24 * nat n)) (scalar_unpacked s)"
proof -
  define u where "u = (swb_substep ^^ (24 * nat n)) (scalar_unpacked s)"
  have v: "valid_state u" unfolding u_def by (rule valid_funpow [OF assms])
  have "unat (word_of_nat x :: 32 word) = x" if "x \<in> set (lanes u)" for x
  proof -
    from v that have "x < 2 ^ 24" by (simp add: valid_state_def)
    then show ?thesis by (intro of_nat_inverse) simp_all
  qed
  then have l: "map unat (map word_of_nat (lanes u) :: 32 word list) = lanes u"
    by (simp add: map_idI)
  have "borrow u < 2 ^ 32" using v by (simp add: valid_state_def)
  then have b: "unat (word_of_nat (borrow u) :: 32 word) = borrow u"
    by (intro of_nat_inverse) simp_all
  have "scalar_nextstate_spec n s = s\<lparr>sx := map word_of_nat (lanes u), sc := word_of_nat (borrow u)\<rparr>"
    by (simp add: scalar_nextstate_spec_def Let_def u_def)
  then have "scalar_unpacked (scalar_nextstate_spec n s)
      = \<lparr>lanes = map unat (map word_of_nat (lanes u) :: 32 word list),
         borrow = unat (word_of_nat (borrow u) :: 32 word)\<rparr>"
    by (simp add: scalar_unpacked_def del: map_map)
  then have "scalar_unpacked (scalar_nextstate_spec n s) = \<lparr>lanes = lanes u, borrow = borrow u\<rparr>"
    unfolding l b .
  then show ?thesis by (simp add: u_def)
qed

lemma scalar_unpacked_nextstate_funpow:
  assumes "valid_state (scalar_unpacked s)"
  shows "scalar_unpacked ((scalar_nextstate_spec n ^^ N) s) = (swb_substep ^^ (24 * nat n * N)) (scalar_unpacked s)"
proof (induction N)
  case 0
  then show ?case by simp
next
  case (Suc N)
  have "valid_state (scalar_unpacked ((scalar_nextstate_spec n ^^ N) s))"
    unfolding Suc.IH by (rule valid_funpow [OF assms])
  from scalar_unpacked_nextstate [OF this, of n]
  have "scalar_unpacked ((scalar_nextstate_spec n ^^ Suc N) s)
      = (swb_substep ^^ (24 * nat n)) ((swb_substep ^^ (24 * nat n * N)) (scalar_unpacked s))"
    by (simp add: Suc.IH)
  also have "\<dots> = (swb_substep ^^ (24 * nat n + 24 * nat n * N)) (scalar_unpacked s)"
    by (simp only: funpow_add o_apply)
  also have "24 * nat n + 24 * nat n * N = 24 * nat n * Suc N" by simp
  finally show ?case .
qed


text \<open>
  The comparison of the test \<^verbatim>\<open>compare_ranlux_1\<close>: after every one of \<open>N\<close> rounds of
  \<^verbatim>\<open>g0.nextstate(stride)\<close> and \<^verbatim>\<open>g1.nextstate()\<close> with \<open>p = 24 * stride\<close>, the state that
  \<^verbatim>\<open>getranluxseq\<close> unpacks is the state that \<^verbatim>\<open>getstate\<close> delivers.
\<close>

lemma compare_ranlux_1_passes:
  assumes "lanes24 (sx s)" "sc s \<le> 1" "scalar_unpacked s \<noteq> degenerate_state"
    and "0 < stride" "0 < N"
  shows "toSWBState ((lcg_nextstate (24 * nat stride) ^^ N) (toLCGState (getstate_unpacked s)))
       = getstate_unpacked ((scalar_nextstate_spec stride ^^ N) s)"
proof -
  have len: "length (sx s) = 24" using assms(1) by (simp add: lanes24_def)
  have "unat (sc s) \<le> 1" using assms(2) by (simp add: word_le_nat_alt)
  then have v: "valid_state (scalar_unpacked s)"
    using assms(1) by (auto simp: valid_state_def scalar_unpacked_def lanes24_def word_less_nat_alt)
  have "24 * 1 \<le> 24 * nat stride * N" using assms(4,5) by simp
  then have n: "24 \<le> 24 * nat stride * N" by simp
  have "lanes24 (sx ((scalar_nextstate_spec stride ^^ N) s))"
    by (induction N) (simp_all add: assms(1) scalar_nextstate_spec_lanes24)
  then have len': "length (sx ((scalar_nextstate_spec stride ^^ N) s)) = 24" by (simp add: lanes24_def)
  have "toSWBState ((lcg_nextstate (24 * nat stride) ^^ N) (toLCGState (scalar_unpacked s)))
      = toSWBState (toLCGState ((swb_substep ^^ (24 * nat stride * N)) (scalar_unpacked s)))"
    by (simp only: lcg_nextstate_funpow [OF v])
  also have "\<dots> = (swb_substep ^^ (24 * nat stride * N)) (scalar_unpacked s)"
    by (rule roundtrip_reachable [OF v assms(3) n])
  also have "\<dots> = scalar_unpacked ((scalar_nextstate_spec stride ^^ N) s)"
    by (simp only: scalar_unpacked_nextstate_funpow [OF v])
  finally show ?thesis by (simp only: getstate_unpacked_eq [OF len] getstate_unpacked_eq [OF len'])
qed

section \<open>The example states\<close>

lemma unpacked_example_valid: "valid_state unpacked_example"
  by (simp add: valid_state_def unpacked_example_def)

lemma unpacked_example_proper: "unpacked_example \<noteq> degenerate_state"
proof
  assume "unpacked_example = degenerate_state"
  then have "borrow unpacked_example = borrow degenerate_state" by simp
  then show False by (simp add: unpacked_example_def degenerate_state_def)
qed

lemma collide_a_packed: "toLCGState collide_a = 2 ^ 552 - 2 ^ 216"
  by (simp add: toLCGState_def lcg_raw_def collide_a_def modulus_m_def)

lemma collide_b_packed: "toLCGState collide_b = 2 ^ 552 - 2 ^ 216"
  by (simp add: toLCGState_def lcg_raw_def collide_b_def modulus_m_def)

lemma collide_quotient: "((2 ^ 552 - 2 ^ 216) * 2 ^ 576) div modulus_m = 2 ^ 552 - (1::nat)"
proof -
  have a: "(2 ^ 552 - 2 ^ 216) * 2 ^ 576 = (2 ^ 576 - 2 ^ 552 - 2 ^ 240 + 1) + (2 ^ 552 - (1::nat)) * modulus_m"
    by (simp add: modulus_m_def)
  have b: "(2 ^ 576 - 2 ^ 552 - 2 ^ 240 + 1) < modulus_m"
    by (simp add: modulus_m_def)
  show ?thesis
    unfolding a using b by (simp only: div_mult_self1 div_less)
qed

lemma upt_24: "[0..<24] = [0, 1, 2, 3, 4, 5, 6, 7, 8, 9, 10, 11, 12, 13, 14, 15, 16, 17, 18, 19, 20, 21, 22, 23]"
  by code_simp

lemma collide_a_unpacked_newest: "lanes (toSWBState (toLCGState collide_a)) ! 23 = 0"
  unfolding collide_a_packed toSWBState_def Let_def collide_quotient
  by (simp add: unpack_lanes_def upt_24)

lemma scalar_first_words:
  "scalar_get_uint32_vector xs ! 0 = push_bit 8 (xs ! 0) OR drop_bit 16 (xs ! 1)"
  "scalar_get_uint32_vector xs ! 1 = push_bit 16 (xs ! 1) OR drop_bit 8 (xs ! 2)"
  "scalar_get_uint32_vector xs ! 2 = push_bit 24 (xs ! 2) OR xs ! 3"
proof -
  have g: "(0::nat) < 6" by simp
  note n = scalar_get_uint32_vector_nth [OF g, of xs]
  show "scalar_get_uint32_vector xs ! 0 = push_bit 8 (xs ! 0) OR drop_bit 16 (xs ! 1)"
    using n(1) by (simp only: mult_zero_right add_0_left)
  show "scalar_get_uint32_vector xs ! 1 = push_bit 16 (xs ! 1) OR drop_bit 8 (xs ! 2)"
    using n(2) by (simp only: mult_zero_right add_0_left)
  show "scalar_get_uint32_vector xs ! 2 = push_bit 24 (xs ! 2) OR xs ! 3"
    using n(3) by (simp only: mult_zero_right add_0_left)
qed

lemma scalar_example_inv: "scalar_inv scalar_example"
  by (simp add: scalar_inv_def lanes24_def scalar_example_def)

lemma lanes24_nth: "lanes24 xs \<Longrightarrow> \<forall>k<24. xs ! k < 2 ^ 24"
  by (simp add: lanes24_def)

section \<open>Claim C1: one call of the congruential generator is p sub-steps\<close>

text \<open>
  Claim C1. From the packed image of a state, \<open>n \<ge> 1\<close> calls of the big-integer engine's
  \<^verbatim>\<open>nextstate\<close> (state \<open>\<leftarrow>\<close> state \<open>\<times> A mod m\<close>, \<open>A = a^p mod m\<close>) give the packed image of the state
  that \<open>p * n\<close> sub-steps of the subtract-with-borrow recurrence give, and \<open>toSWBState\<close> turns
  it into exactly that state, all 24 lanes and the borrow bit. This holds at every iteration
  \<open>n\<close> and for every skip distance \<open>p \<ge> 24\<close>, so for 24, 48, 97, 223, 389 and 2048. The
  start state is any state of 24-bit lanes and a borrow bit other than the fixed point with
  every lane \<open>2^24 - 1\<close> and the borrow set, whose packed value is \<open>m\<close> itself.
\<close>

theorem lcg_advance_equals_p_substeps:
  assumes "valid_state s" "s \<noteq> degenerate_state" "24 \<le> p" "0 < n"
  shows "(lcg_nextstate p ^^ n) (toLCGState s) = toLCGState ((swb_substep ^^ (p * n)) s)
       \<and> toSWBState ((lcg_nextstate p ^^ n) (toLCGState s)) = (swb_substep ^^ (p * n)) s"
proof -
  have "24 * 1 \<le> p * n" using assms(3,4) by (intro mult_le_mono) simp_all
  then have "24 \<le> p * n" by simp
  from roundtrip_reachable [OF assms(1,2) this] lcg_nextstate_funpow [OF assms(1), where p = p and n = n]
  show ?thesis by simp
qed

text \<open>
  The statement of claim C1 at the example state, with \<open>p = 97\<close> and three calls.
\<close>

theorem lcg_advance_equals_p_substeps_witness:
  "valid_state unpacked_example \<and> unpacked_example \<noteq> degenerate_state
   \<and> toSWBState ((lcg_nextstate 97 ^^ 3) (toLCGState unpacked_example))
       = (swb_substep ^^ (97 * 3)) unpacked_example"
proof -
  have h: "(24::nat) \<le> 97" "(0::nat) < 3" by simp_all
  from lcg_advance_equals_p_substeps [OF unpacked_example_valid unpacked_example_proper h]
  show ?thesis using unpacked_example_valid unpacked_example_proper by blast
qed

section \<open>Claim C2: the round trip through the packed representation\<close>



text \<open>
  The 24 sub-steps matter. There are \<open>2^577\<close> states of 24-bit lanes with a borrow bit and
  fewer than \<open>2^576\<close> packed values, so the packing cannot tell all lane contents apart:
  \<open>collide_a\<close> (newest lane 1, the others 0) and \<open>collide_b\<close> (newest lane 0, the others
  \<open>2^24 - 1\<close>), both with the borrow clear, have the same packed value, and \<open>toSWBState\<close>
  does not return \<open>collide_a\<close> for it. No 24 sub-steps lead to \<open>collide_a\<close>.
\<close>

lemma packing_identifies_unproduced_lanes:
  "valid_state collide_a \<and> valid_state collide_b \<and> collide_a \<noteq> collide_b
   \<and> toLCGState collide_a = toLCGState collide_b
   \<and> toSWBState (toLCGState collide_a) \<noteq> collide_a"
proof -
  have "valid_state collide_a" "valid_state collide_b"
    by (simp_all add: valid_state_def collide_a_def collide_b_def)
  moreover have "collide_a \<noteq> collide_b"
    by (simp add: collide_a_def collide_b_def)
  moreover have "toSWBState (toLCGState collide_a) \<noteq> collide_a"
  proof
    assume "toSWBState (toLCGState collide_a) = collide_a"
    then have "lanes (toSWBState (toLCGState collide_a)) ! 23 = lanes collide_a ! 23" by simp
    then show False unfolding collide_a_unpacked_newest by (simp add: collide_a_def)
  qed
  ultimately show ?thesis by (simp add: collide_a_packed collide_b_packed)
qed

lemma collide_a_not_produced:
  assumes "valid_state u" "u \<noteq> degenerate_state" "24 \<le> n"
  shows "(swb_substep ^^ n) u \<noteq> collide_a"
proof
  assume e: "(swb_substep ^^ n) u = collide_a"
  from roundtrip_reachable [OF assms] have "toSWBState (toLCGState collide_a) = collide_a"
    unfolding e .
  then have "lanes (toSWBState (toLCGState collide_a)) ! 23 = lanes collide_a ! 23" by simp
  then show False unfolding collide_a_unpacked_newest by (simp add: collide_a_def)
qed

section \<open>Claim C3: the word export of the vector engines\<close>

text \<open>
  Claim C3 fails on the 4-wide engine. In the state \<open>sse_example\<close> the vector \<^verbatim>\<open>_x[0]\<close> has
  lanes \<open>1, 0x10000, 0, 0\<close> and every other vector is zero. The first output word is
  \<open>(1 << 8) | (0x10000 >> 16) = 257\<close>: it combines word 0 of lane 0 with word 0 of lane 1.
  The scalar packing of lane 0 alone starts with \<open>256\<close>, so the first 18 output words are
  not the scalar export of lane 0.
\<close>

theorem sse_export_not_lane_major:
  "simd_shape 4 sse_example
   \<and> take 18 (simd_get_uint32_vector 4 (flat sse_example)) ! 0 = 257
   \<and> scalar_get_uint32_vector (lane_words sse_example 0) ! 0 = 256
   \<and> take 18 (simd_get_uint32_vector 4 (flat sse_example)) \<noteq> scalar_get_uint32_vector (lane_words sse_example 0)"
proof -
  have a: "simd_get_uint32_vector 4 (flat sse_example) ! 0 = 257"
    using simd_get_uint32_vector_nth(1) [of 0 4 "flat sse_example"]
    by (simp add: sse_example_flat)
  have b: "scalar_get_uint32_vector (lane_words sse_example 0) ! 0 = 256"
    using scalar_get_uint32_vector_nth(1) [of 0 "lane_words sse_example 0"]
    by (simp add: sse_example_lane0)
  have c: "simd_shape 4 sse_example"
    by (simp add: simd_shape_def sse_example_def)
  have d: "take 18 (simd_get_uint32_vector 4 (flat sse_example)) ! 0 = 257"
    using a by simp
  have "take 18 (simd_get_uint32_vector 4 (flat sse_example)) \<noteq> scalar_get_uint32_vector (lane_words sse_example 0)"
  proof
    assume "take 18 (simd_get_uint32_vector 4 (flat sse_example)) = scalar_get_uint32_vector (lane_words sse_example 0)"
    then have "take 18 (simd_get_uint32_vector 4 (flat sse_example)) ! 0 = scalar_get_uint32_vector (lane_words sse_example 0) ! 0"
      by simp
    then show False unfolding b d by simp
  qed
  with b c d show ?thesis by simp
qed

text \<open>
  Claim C3 (amended). For every state of a vector engine of width \<open>w\<close> (4 for SSE, 8 for
  AVX), \<^verbatim>\<open>nextstate_and_get_uint32_vector\<close> advances the state by \<^verbatim>\<open>_p\<close> and produces
  \<open>w * 18\<close> words from the advanced state read as the flat array \<^verbatim>\<open>(int32_t*)_x\<close>: for
  every \<open>g < 6 * w\<close> the output words \<open>3g, 3g+1, 3g+2\<close> are the 8/16/24-bit shift-and-or
  packing (with the arithmetic right shift of \<^verbatim>\<open>int32_t\<close>) of the four consecutive flat
  elements \<open>4g .. 4g+3\<close>, where flat element \<open>i\<close> is lane \<open>i mod w\<close> of the vector
  \<^verbatim>\<open>_x[i div w]\<close>. So a group packs one state word of four different lanes (SSE: word \<open>g\<close>
  of lanes 0 to 3), and the output follows the state words, not the lanes.
\<close>

theorem simd_export_packs_the_flattened_state:
  assumes "simd_nextstate_and_get_uint32_vector w ns s = (out, s1)"
    and "simd_shape w s1"
    and "g < 6 * w"
  shows "s1 = ns (vp s) s \<and> length out = w * 18
       \<and> out ! (3 * g) = push_bit 8 (vx s1 ! (4 * g div w) ! (4 * g mod w))
                          OR signed_drop_bit 16 (vx s1 ! ((4 * g + 1) div w) ! ((4 * g + 1) mod w))
       \<and> out ! (3 * g + 1) = push_bit 16 (vx s1 ! ((4 * g + 1) div w) ! ((4 * g + 1) mod w))
                          OR signed_drop_bit 8 (vx s1 ! ((4 * g + 2) div w) ! ((4 * g + 2) mod w))
       \<and> out ! (3 * g + 2) = push_bit 24 (vx s1 ! ((4 * g + 2) div w) ! ((4 * g + 2) mod w))
                          OR vx s1 ! ((4 * g + 3) div w) ! ((4 * g + 3) mod w)"
proof -
  from assms(1) have s1: "s1 = ns (vp s) s" and out: "out = simd_get_uint32_vector w (flat s1)"
    by (auto simp: simd_nextstate_and_get_uint32_vector_def Let_def)
  have f: "flat s1 ! (4 * g) = vx s1 ! (4 * g div w) ! (4 * g mod w)"
    "flat s1 ! (4 * g + 1) = vx s1 ! ((4 * g + 1) div w) ! ((4 * g + 1) mod w)"
    "flat s1 ! (4 * g + 2) = vx s1 ! ((4 * g + 2) div w) ! ((4 * g + 2) mod w)"
    "flat s1 ! (4 * g + 3) = vx s1 ! ((4 * g + 3) div w) ! ((4 * g + 3) mod w)"
    using assms(3) by (simp_all add: flat_nth [OF assms(2)])
  note n = simd_get_uint32_vector_nth [OF assms(3), of "flat s1"]
  show ?thesis
    unfolding out n f using s1 by (simp add: simd_get_uint32_vector_length)
qed

text \<open>
  The amended claim C3 at the example state of the 4-wide engine, last group.
\<close>

theorem simd_export_packs_the_flattened_state_witness:
  "simd_shape 4 (snd (simd_nextstate_and_get_uint32_vector 4 (simd_nextstate_spec 4) sse_example))
   \<and> length (fst (simd_nextstate_and_get_uint32_vector 4 (simd_nextstate_spec 4) sse_example)) = 4 * 18"
proof -
  define r where "r = simd_nextstate_and_get_uint32_vector 4 (simd_nextstate_spec 4) sse_example"
  have e: "r = (fst r, snd r)" by simp
  have "snd r = simd_nextstate_spec 4 (vp sse_example) sse_example"
    by (simp add: r_def simd_nextstate_and_get_uint32_vector_def Let_def)
  then have b: "simd_shape 4 (snd r)" by (simp add: simd_nextstate_spec_shape)
  have g: "(23::nat) < 6 * 4" by simp
  from simd_export_packs_the_flattened_state [OF e [unfolded r_def] b [unfolded r_def] g] b
  show ?thesis unfolding r_def by blast
qed

section \<open>Claim C4: the word export of the scalar engine\<close>

text \<open>
  Claim C4 says that three consecutive 24-bit lanes are packed into two 32-bit words. Two
  output words cannot hold three lanes: the states \<open>lanes_zero\<close> and \<open>lanes_low_bit\<close>, which
  differ in the low bit of lane 2 only, give the same output words 0 and 1; the difference
  is in output word 2.
\<close>

theorem scalar_export_two_words_lose_third_lane:
  "scalar_get_uint32_vector lanes_zero ! 0 = scalar_get_uint32_vector lanes_low_bit ! 0
   \<and> scalar_get_uint32_vector lanes_zero ! 1 = scalar_get_uint32_vector lanes_low_bit ! 1
   \<and> lanes_zero ! 2 \<noteq> lanes_low_bit ! 2
   \<and> scalar_get_uint32_vector lanes_zero ! 2 \<noteq> scalar_get_uint32_vector lanes_low_bit ! 2"
  unfolding scalar_first_words by (simp add: lanes_zero_def lanes_low_bit_def)

text \<open>
  Claim C4 (amended). For every scalar engine state, the export advances the state by
  \<^verbatim>\<open>_p\<close> and produces exactly 18 words from the 24 lanes of the advanced state; it packs
  four consecutive 24-bit lanes into three 32-bit words with the 8/16/24-bit shifts: for
  every \<open>g < 6\<close>, words \<open>3g, 3g+1, 3g+2\<close> are \<open>(x[4g] << 8) | (x[4g+1] >> 16)\<close>,
  \<open>(x[4g+1] << 16) | (x[4g+2] >> 8)\<close> and \<open>(x[4g+2] << 24) | x[4g+3]\<close>, and, the lanes being
  24-bit values, the 96 bits of the three words are the four lanes one after the other.
\<close>

theorem scalar_export_four_lanes_into_three_words:
  assumes "scalar_nextstate_and_get_uint32_vector ns s = (out, s1)"
    and "\<forall>k<24. sx s1 ! k < 2 ^ 24"
    and "g < 6"
  shows "s1 = ns (sp s) s \<and> length out = 18
       \<and> out ! (3 * g) = push_bit 8 (sx s1 ! (4 * g)) OR drop_bit 16 (sx s1 ! (4 * g + 1))
       \<and> out ! (3 * g + 1) = push_bit 16 (sx s1 ! (4 * g + 1)) OR drop_bit 8 (sx s1 ! (4 * g + 2))
       \<and> out ! (3 * g + 2) = push_bit 24 (sx s1 ! (4 * g + 2)) OR sx s1 ! (4 * g + 3)
       \<and> uint (out ! (3 * g)) * 2 ^ 64 + uint (out ! (3 * g + 1)) * 2 ^ 32 + uint (out ! (3 * g + 2))
         = uint (sx s1 ! (4 * g)) * 2 ^ 72 + uint (sx s1 ! (4 * g + 1)) * 2 ^ 48
           + uint (sx s1 ! (4 * g + 2)) * 2 ^ 24 + uint (sx s1 ! (4 * g + 3))"
proof -
  from assms(1) have s1: "s1 = ns (sp s) s" and out: "out = scalar_get_uint32_vector (sx s1)"
    by (auto simp: scalar_nextstate_and_get_uint32_vector_def Let_def)
  have b: "sx s1 ! (4 * g) < 2 ^ 24" "sx s1 ! (4 * g + 1) < 2 ^ 24"
    "sx s1 ! (4 * g + 2) < 2 ^ 24" "sx s1 ! (4 * g + 3) < 2 ^ 24"
    using assms(2,3) by simp_all
  note n = scalar_get_uint32_vector_nth [OF assms(3), of "sx s1"]
  show ?thesis
    unfolding out n using s1 pack3_value [OF b]
    by (simp add: scalar_get_uint32_vector_length)
qed

text \<open>
  The amended claim C4 at the example state, last group of lanes.
\<close>

theorem scalar_export_four_lanes_into_three_words_witness:
  "lanes24 (sx (snd (scalar_nextstate_and_get_uint32_vector scalar_nextstate_spec scalar_example)))
   \<and> length (fst (scalar_nextstate_and_get_uint32_vector scalar_nextstate_spec scalar_example)) = 18
   \<and> fst (scalar_nextstate_and_get_uint32_vector scalar_nextstate_spec scalar_example) ! (3 * 5 + 2)
       = push_bit 24 (sx (snd (scalar_nextstate_and_get_uint32_vector scalar_nextstate_spec scalar_example)) ! (4 * 5 + 2))
         OR sx (snd (scalar_nextstate_and_get_uint32_vector scalar_nextstate_spec scalar_example)) ! (4 * 5 + 3)"
proof -
  define r where "r = scalar_nextstate_and_get_uint32_vector scalar_nextstate_spec scalar_example"
  have e: "r = (fst r, snd r)" by simp
  have "snd r = scalar_nextstate_spec (sp scalar_example) scalar_example"
    by (simp add: r_def scalar_nextstate_and_get_uint32_vector_def Let_def)
  then have l: "lanes24 (sx (snd r))"
    using scalar_example_inv by (simp add: scalar_nextstate_spec_lanes24 scalar_inv_def)
  then have b: "\<forall>k<24. sx (snd r) ! k < 2 ^ 24" by (rule lanes24_nth)
  have g: "(5::nat) < 6" by simp
  from scalar_export_four_lanes_into_three_words [OF e [unfolded r_def] b [unfolded r_def] g] l
  show ?thesis unfolding r_def by blast
qed

section \<open>Claim C9: the export advances and keeps the cursor\<close>



section \<open>Claim C10: the draws of the vector engines go through the lanes\<close>

text \<open>
  Claim C10. On a vector engine of width \<open>w\<close> whose batch is exhausted, the next call
  refills (the state \<open>s1\<close>) and the \<open>k \<le> w * 24\<close> calls from there on return, call \<open>i\<close>
  (counted from 0), the state word \<open>i div w\<close> of lane \<open>i mod w\<close>: consecutive draws go
  through the lanes of one state word before they move to the next word.
\<close>

theorem simd_draws_interleave_lanes:
  assumes "int w * 24 \<le> vpos s"
    and "s1 = ns (vp s) (s\<lparr>vpos := 0\<rparr>)"
    and "vpos s1 = 0" and "simd_shape w s1"
    and "0 < k" and "k \<le> w * 24"
  shows "simd_draws w ns k s
       = Some (map (\<lambda>i. tofloat24 (vx s1 ! (i div w) ! (i mod w))) [0..<k], s1\<lparr>vpos := int k\<rparr>)"
proof -
  from assms(5) obtain k' where k: "k = Suc k'" by (cases k) simp_all
  have w: "0 < int w * 24" using assms(5,6) by (cases w) simp_all
  have "simd_call w ns s = simd_call w ns s1"
    using assms(1,3) w by (simp add: simd_call_def Let_def assms(2) [symmetric])
  then have "simd_draws w ns k s = simd_draws w ns k s1" by (simp add: k)
  also have "\<dots> = Some (map (\<lambda>i. tofloat24 (vx s1 ! (i div w) ! (i mod w))) [0..<0 + k], s1\<lparr>vpos := int (0 + k)\<rparr>)"
    using assms(3,4,6) by (intro simd_draws_in_batch) simp_all
  finally show ?thesis by simp
qed

text \<open>
  Claim C10 on the 4-wide example state for a whole batch of 96 draws.
\<close>

theorem simd_draws_interleave_lanes_witness:
  "simd_draws 4 (simd_nextstate_spec 4) 96 (sse_example\<lparr>vpos := 96\<rparr>)
     = Some (map (\<lambda>i. tofloat24 (vx (simd_nextstate_spec 4 17 (sse_example\<lparr>vpos := 0\<rparr>)) ! (i div 4) ! (i mod 4)))
               [0..<96],
             (simd_nextstate_spec 4 17 (sse_example\<lparr>vpos := 0\<rparr>))\<lparr>vpos := 96\<rparr>)"
proof -
  define s where "s = sse_example\<lparr>vpos := 96\<rparr>"
  define s1 where "s1 = simd_nextstate_spec 4 (vp s) (s\<lparr>vpos := 0\<rparr>)"
  have 1: "int 4 * 24 \<le> vpos s" by (simp add: s_def)
  have 3: "vpos s1 = 0" by (simp add: s1_def simd_nextstate_spec_frame)
  have 4: "simd_shape 4 s1" unfolding s1_def by (rule simd_nextstate_spec_shape)
  have 5: "(0::nat) < 96" "(96::nat) \<le> 4 * 24" by simp_all
  have e: "s1 = simd_nextstate_spec 4 17 (sse_example\<lparr>vpos := 0\<rparr>)"
    by (simp add: s1_def s_def sse_example_def)
  from simd_draws_interleave_lanes [of 4 s s1 "simd_nextstate_spec 4" 96, OF 1 s1_def 3 4 5]
  show ?thesis unfolding e unfolding s_def by simp
qed

end
